theory Spec2Isabelle
  imports Complex_Main
begin

section \<open>Data model: state.py, tool.py, tool_list.py\<close>

text \<open>
  The values a field of a \<^verbatim>\<open>State\<close> or an argument of a tool can hold at run time. The
  annotations say \<^verbatim>\<open>str\<close> and \<^verbatim>\<open>bool\<close>, but Python does not enforce them, and the argument
  tuples come out of \<^verbatim>\<open>eval\<close>: so besides \<^verbatim>\<open>None\<close>, strings and booleans there is any other
  value, of which the model keeps a number (two such values are equal when their numbers and
  flags are), whether it is hashable (a list or a dict is not) and its truth value.
\<close>

datatype pyval = PNone | PStr string | PBool bool | PObj nat bool bool

fun truthy :: "pyval \<Rightarrow> bool" where
  "truthy PNone = False"
| "truthy (PStr s) = (s \<noteq> [])"
| "truthy (PBool b) = b"
| "truthy (PObj _ _ t) = t"

fun hashable :: "pyval \<Rightarrow> bool" where
  "hashable (PObj _ h _) = h"
| "hashable _ = True"

text \<open>
  \<^verbatim>\<open>State\<close> is a dataclass of four fields. Equality is equality of the four fields;
  \<^verbatim>\<open>__hash__\<close> hashes the tuple of them, and raises \<^verbatim>\<open>TypeError\<close> when one of them is not
  hashable. \<^verbatim>\<open>is_goal\<close> returns the field \<^verbatim>\<open>booking_confirmed\<close>; the search tests its truth
  value.
\<close>

record State =
  origin :: pyval
  destination :: pyval
  transport :: pyval
  booking_confirmed :: pyval

definition State_init :: State where
  "State_init =
     \<lparr>origin = PNone, destination = PNone, transport = PNone, booking_confirmed = PBool False\<rparr>"

definition is_goal :: "State \<Rightarrow> pyval" where
  "is_goal s = booking_confirmed s"

definition hashable_state :: "State \<Rightarrow> bool" where
  "hashable_state s =
     (hashable (origin s) \<and> hashable (destination s) \<and> hashable (transport s)
      \<and> hashable (booking_confirmed s))"

text \<open>
  The exceptions the modelled code can raise: the \<^verbatim>\<open>ValueError\<close> of \<^verbatim>\<open>Tool.__call__\<close> (with the
  tool's name), the \<^verbatim>\<open>IndexError\<close> of \<^verbatim>\<open>args[0]\<close> and of \<^verbatim>\<open>tool_candidates[0]\<close>, the
  \<^verbatim>\<open>ZeroDivisionError\<close> of a float division, \<^verbatim>\<open>RuntimeError("No plan found")\<close>, the
  \<^verbatim>\<open>TypeError\<close> of hashing a state with an unhashable field, and \<^verbatim>\<open>SystemExit\<close> (for every
  exception that \<^verbatim>\<open>except Exception\<close> does not catch).
\<close>

datatype error =
  PreconditionFailed string | IndexError | ZeroDivisionError | NoPlanFound | TypeError
| SystemExit

text \<open>
  A \<^verbatim>\<open>Tool\<close> holds two closures. The effect mutates the state it is given: here it returns
  the state as it has left it, and the exception it has raised, if any.
\<close>

record Tool =
  name :: string
  description :: string
  cost :: real
  precondition :: "State \<Rightarrow> bool"
  effect :: "State \<Rightarrow> pyval list \<Rightarrow> State \<times> error option"
  arg_names :: "string list"

text \<open>
  \<^verbatim>\<open>Tool.__call__\<close>: the state after the call, and the exception raised or the value
  returned.
\<close>

definition tool_call :: "Tool \<Rightarrow> State \<Rightarrow> pyval list \<Rightarrow> State \<times> (error + bool)" where
  "tool_call t s args =
     (if \<not> precondition t s then (s, Inl (PreconditionFailed (name t)))
      else (case effect t s args of
              (s', Some e) \<Rightarrow> (s', Inl e)
            | (s', None) \<Rightarrow> (s', Inr True)))"

text \<open>\<^verbatim>\<open>args[0]\<close> on a tuple: \<^verbatim>\<open>IndexError\<close> when the tuple is empty.\<close>

definition arg0 :: "pyval list \<Rightarrow> error + pyval" where
  "arg0 args = (case args of [] \<Rightarrow> Inl IndexError | a # _ \<Rightarrow> Inr a)"

text \<open>
  The four tools of \<^verbatim>\<open>TOOLS\<close>. \<^verbatim>\<open>is None\<close> and \<^verbatim>\<open>is not None\<close> compare with \<^verbatim>\<open>None\<close> itself;
  \<^verbatim>\<open>not s.booking_confirmed\<close> takes the truth value.
\<close>

definition set_origin :: Tool where
  "set_origin =
     \<lparr>name = ''set_origin'', description = ''Set the origin city for travel'', cost = 1,
      precondition = (\<lambda>s. origin s = PNone),
      effect = (\<lambda>s args. case arg0 args of
                             Inl e \<Rightarrow> (s, Some e)
                           | Inr a \<Rightarrow> (s\<lparr>origin := a\<rparr>, None)),
      arg_names = [''city'']\<rparr>"

definition set_destination :: Tool where
  "set_destination =
     \<lparr>name = ''set_destination'', description = ''Set the destination city'', cost = 1,
      precondition = (\<lambda>s. origin s \<noteq> PNone \<and> destination s = PNone),
      effect = (\<lambda>s args. case arg0 args of
                             Inl e \<Rightarrow> (s, Some e)
                           | Inr a \<Rightarrow> (s\<lparr>destination := a\<rparr>, None)),
      arg_names = [''city'']\<rparr>"

definition select_transport :: Tool where
  "select_transport =
     \<lparr>name = ''select_transport'', description = ''Choose a transport mode (e.g. train, flight)'',
      cost = 12 / 10,
      precondition = (\<lambda>s. destination s \<noteq> PNone \<and> transport s = PNone),
      effect = (\<lambda>s args. case arg0 args of
                             Inl e \<Rightarrow> (s, Some e)
                           | Inr a \<Rightarrow> (s\<lparr>transport := a\<rparr>, None)),
      arg_names = [''mode'']\<rparr>"

definition confirm_booking :: Tool where
  "confirm_booking =
     \<lparr>name = ''confirm_booking'', description = ''Finalize the booking and mark as confirmed'',
      cost = 2,
      precondition = (\<lambda>s. transport s \<noteq> PNone \<and> \<not> truthy (booking_confirmed s)),
      effect = (\<lambda>s args. (s\<lparr>booking_confirmed := PBool True\<rparr>, None)),
      arg_names = []\<rparr>"

definition TOOLS :: "Tool list" where
  "TOOLS = [set_origin, set_destination, select_transport, confirm_booking]"

section \<open>Python floats\<close>

text \<open>
  A float is a finite value, an infinity or NaN. Finite values are reals: rounding is not
  modelled, the special values and the comparisons with them are. Every comparison with NaN
  is false; \<^verbatim>\<open>max(a, b)\<close> is \<^verbatim>\<open>b\<close> only if \<^verbatim>\<open>b > a\<close>, \<^verbatim>\<open>min(a, b)\<close> is \<^verbatim>\<open>b\<close> only if
  \<^verbatim>\<open>b < a\<close>; a division by zero raises.
\<close>

datatype pyfloat = Fin real | PInf | NInf | NaN

fun py_lt :: "pyfloat \<Rightarrow> pyfloat \<Rightarrow> bool" where
  "py_lt (Fin a) (Fin b) = (a < b)"
| "py_lt (Fin a) PInf = True"
| "py_lt NInf (Fin b) = True"
| "py_lt NInf PInf = True"
| "py_lt _ _ = False"

definition py_max :: "pyfloat \<Rightarrow> pyfloat \<Rightarrow> pyfloat" where
  "py_max a b = (if py_lt a b then b else a)"

definition py_min :: "pyfloat \<Rightarrow> pyfloat \<Rightarrow> pyfloat" where
  "py_min a b = (if py_lt b a then b else a)"

fun py_mul :: "pyfloat \<Rightarrow> pyfloat \<Rightarrow> pyfloat" where
  "py_mul (Fin a) (Fin b) = Fin (a * b)"
| "py_mul NaN _ = NaN"
| "py_mul _ NaN = NaN"
| "py_mul PInf (Fin b) = (if 0 < b then PInf else if b < 0 then NInf else NaN)"
| "py_mul NInf (Fin b) = (if 0 < b then NInf else if b < 0 then PInf else NaN)"
| "py_mul (Fin a) PInf = (if 0 < a then PInf else if a < 0 then NInf else NaN)"
| "py_mul (Fin a) NInf = (if 0 < a then NInf else if a < 0 then PInf else NaN)"
| "py_mul PInf PInf = PInf"
| "py_mul PInf NInf = NInf"
| "py_mul NInf PInf = NInf"
| "py_mul NInf NInf = PInf"

text \<open>A finite numerator divided by a float, and a finite value plus a float.\<close>

fun py_div :: "real \<Rightarrow> pyfloat \<Rightarrow> error + pyfloat" where
  "py_div h (Fin c) = (if c = 0 then Inl ZeroDivisionError else Inr (Fin (h / c)))"
| "py_div h PInf = Inr (Fin 0)"
| "py_div h NInf = Inr (Fin 0)"
| "py_div h NaN = Inr NaN"

fun py_add :: "real \<Rightarrow> pyfloat \<Rightarrow> pyfloat" where
  "py_add x (Fin y) = Fin (x + y)"
| "py_add x v = v"

fun is_finite :: "pyfloat \<Rightarrow> bool" where
  "is_finite (Fin _) = True"
| "is_finite _ = False"

section \<open>The oracle and the random source\<close>

text \<open>
  \<^verbatim>\<open>call_gpt\<close> and \<^verbatim>\<open>random.uniform\<close> are the outside world. Every call of either takes the
  next tick of a counter that the model threads through the search, so the world may answer
  the same question differently each time. The replies are given as what the code makes of
  them:
  \<^item> ranking (\<^verbatim>\<open>json.loads\<close>): \<open>None\<close> when the call failed or \<^verbatim>\<open>json.loads\<close> or the loop over
    the items raised (the code then resets \<^verbatim>\<open>ranked\<close> to the empty list), else the
    \<^verbatim>\<open>(name, p)\<close> of each item (a name that is no string is some string that names no tool);
  \<^item> probability (\<^verbatim>\<open>float\<close>): the call failed (the default is used), the reply is no float
    (\<^verbatim>\<open>ValueError\<close>), or \<^verbatim>\<open>float(out)\<close>;
  \<^item> arguments (\<^verbatim>\<open>eval\<close>): see below.
  \<^verbatim>\<open>random.random()\<close> is \<open>rnd\<close>.
\<close>

datatype prob_reply = CallFailed | Unparsable | Parsed pyfloat

text \<open>
  \<^verbatim>\<open>propose_args\<close> passes the reply to \<^verbatim>\<open>eval\<close>, with \<^verbatim>\<open>state\<close> in scope, and \<^verbatim>\<open>state\<close> is the
  node's own state object (the clone is made later). So the reply is run as code. What the
  search can see of it through its own variables is kept here:
  \<^item> \<open>NoReply\<close>: the call failed, nothing is evaluated;
  \<^item> \<open>Evaluated s r\<close>: the evaluation has left the node's state as \<open>s\<close> (what
    \<^verbatim>\<open>setattr(state, ...)\<close> in the reply does), and \<open>r\<close> is the list of tuples it has given,
    or \<open>None\<close> when it raised an \<^verbatim>\<open>Exception\<close> or gave no list of iterables;
  \<^item> \<open>Exited\<close>: the evaluation raised what \<^verbatim>\<open>except Exception\<close> lets through (\<^verbatim>\<open>exit()\<close>).
  A reply that reaches further (that rebinds \<^verbatim>\<open>TOOLS\<close> or patches a class) is beyond this
  model.
\<close>

datatype args_outcome = NoReply | Evaluated State "pyval list list option" | Exited

record world =
  rank_reply :: "nat \<Rightarrow> State \<Rightarrow> string \<Rightarrow> (string \<times> pyfloat) list option"
  args_reply :: "nat \<Rightarrow> Tool \<Rightarrow> State \<Rightarrow> string \<Rightarrow> args_outcome"
  prob_reply :: "nat \<Rightarrow> State \<Rightarrow> Tool \<Rightarrow> pyval list \<Rightarrow> prob_reply"
  rnd :: "nat \<Rightarrow> real"

text \<open>\<^verbatim>\<open>random.uniform(a, b)\<close> is \<^verbatim>\<open>a + (b - a) * random()\<close>.\<close>

definition uniform :: "real \<Rightarrow> real \<Rightarrow> real \<Rightarrow> real" where
  "uniform a b u = a + (b - a) * u"

text \<open>
  \<^verbatim>\<open>predict_success\<close>: the default \<^verbatim>\<open>str(random.uniform(0.4, 0.9))\<close> is computed before the call
  (one draw, whatever the call does); \<^verbatim>\<open>float(str(x))\<close> is \<^verbatim>\<open>x\<close>. A reply that is no float
  costs a second draw.
\<close>

definition predict_success :: "world \<Rightarrow> nat \<Rightarrow> State \<Rightarrow> Tool \<Rightarrow> pyval list \<Rightarrow> pyfloat \<times> nat" where
  "predict_success w k s t args =
     (let dflt = uniform (4 / 10) (9 / 10) (rnd w k) in
      case prob_reply w (Suc k) s t args of
        CallFailed \<Rightarrow> (Fin dflt, Suc (Suc k))
      | Parsed v \<Rightarrow> (v, Suc (Suc k))
      | Unparsable \<Rightarrow> (Fin (uniform (4 / 10) (9 / 10) (rnd w (Suc (Suc k)))), Suc (Suc (Suc k))))"

fun predict_all :: "world \<Rightarrow> nat \<Rightarrow> State \<Rightarrow> Tool \<Rightarrow> pyval list list \<Rightarrow> pyfloat list \<times> nat" where
  "predict_all w k s t [] = ([], k)"
| "predict_all w k s t (a # as) =
     (let (p, k1) = predict_success w k s t a;
          (ps, k2) = predict_all w k1 s t as
      in (p # ps, k2))"

section \<open>The fallback argument candidates\<close>

text \<open>
  \<^verbatim>\<open>CITY_RE = ([A-Z][a-z]+(?:\s[A-Z][a-z]+)*)\<close> on ASCII text. \<^verbatim>\<open>findall\<close> scans from the left:
  a match starts at a capital followed by a lower-case letter, takes the whole lower-case run,
  then as many groups "one white-space character, a capital, a lower-case run" as follow;
  the scan goes on behind the match, or at the next character when nothing matches here.
\<close>

definition is_upper :: "char \<Rightarrow> bool" where
  "is_upper c = (65 \<le> (of_char c :: nat) \<and> (of_char c :: nat) \<le> 90)"

definition is_lower :: "char \<Rightarrow> bool" where
  "is_lower c = (97 \<le> (of_char c :: nat) \<and> (of_char c :: nat) \<le> 122)"

definition is_space :: "char \<Rightarrow> bool" where
  "is_space c = ((9 \<le> (of_char c :: nat) \<and> (of_char c :: nat) \<le> 13)
                 \<or> (28 \<le> (of_char c :: nat) \<and> (of_char c :: nat) \<le> 32))"

fun match_word :: "string \<Rightarrow> (string \<times> string) option" where
  "match_word (c # d # rest) =
     (if is_upper c \<and> is_lower d
      then Some (c # d # takeWhile is_lower rest, dropWhile is_lower rest)
      else None)"
| "match_word _ = None"

function match_more :: "string \<Rightarrow> string \<times> string" where
  "match_more [] = ([], [])"
| "match_more (c # rest) =
     (if is_space c
      then (case match_word rest of
              None \<Rightarrow> ([], c # rest)
            | Some (wd, r) \<Rightarrow> (let (m, r') = match_more r in (c # wd @ m, r')))
      else ([], c # rest))"
  by pat_completeness auto

lemma match_word_shorter: "match_word s = Some (wd, r) \<Longrightarrow> length r < length s"
proof (induction s rule: match_word.induct)
  case (1 c d rest)
  have "length (dropWhile is_lower rest) \<le> length rest"
    by (rule length_dropWhile_le)
  with 1 show ?case by (auto split: if_splits)
qed simp_all

termination match_more
  by (relation "measure length") (auto dest: match_word_shorter)

lemma match_more_shorter: "match_more s = (m, r) \<Longrightarrow> length r \<le> length s"
proof (induction s arbitrary: m r rule: match_more.induct)
  case 1
  then show ?case by simp
next
  case (2 c rest)
  show ?case
  proof (cases "is_space c")
    case False
    with 2 show ?thesis by simp
  next
    case True
    show ?thesis
    proof (cases "match_word rest")
      case None
      with True 2 show ?thesis by simp
    next
      case (Some p)
      obtain wd r0 where p: "p = (wd, r0)" by (cases p)
      obtain m0 r1 where mm: "match_more r0 = (m0, r1)" by (cases "match_more r0")
      from "2.IH"[OF True] Some p mm have "length r1 \<le> length r0" by simp
      moreover from Some p have "length r0 < length rest" by (auto dest: match_word_shorter)
      moreover from "2.prems" True Some p mm have "r = r1" by simp
      ultimately show ?thesis by simp
    qed
  qed
qed

function findall :: "string \<Rightarrow> string list" where
  "findall [] = []"
| "findall (c # rest) =
     (case match_word (c # rest) of
        None \<Rightarrow> findall rest
      | Some (wd, r) \<Rightarrow> (let (m, r') = match_more r in (wd @ m) # findall r'))"
  by pat_completeness auto

termination findall
proof (relation "measure length")
  show "wf (measure (length :: string \<Rightarrow> nat))" by simp
next
  fix c :: char and rest :: string
  show "(rest, c # rest) \<in> measure length" by simp
next
  fix c :: char and rest x2 wd r xa m r'
  assume "match_word (c # rest) = Some x2" "(wd, r) = x2" "xa = match_more r" "(m, r') = xa"
  then have "length r < length (c # rest)" "length r' \<le> length r"
    using match_word_shorter[of "c # rest" wd r] match_more_shorter[of r m r'] by auto
  then show "(r', c # rest) \<in> measure length" by simp
qed

text \<open>
  \<^verbatim>\<open>seen = set(); [c for c in cities if not (c in seen or seen.add(c))]\<close>: the first
  occurrence of each string stays.
\<close>

fun dedup :: "string list \<Rightarrow> string list \<Rightarrow> string list" where
  "dedup seen [] = []"
| "dedup seen (c # cs) = (if c \<in> set seen then dedup seen cs else c # dedup (c # seen) cs)"

definition TRANSPORT_MODES :: "string list" where
  "TRANSPORT_MODES = [''train'', ''flight'', ''bus'']"

text \<open>The fallback candidates of \<^verbatim>\<open>propose_args\<close>, by the tool's name.\<close>

definition fallback_args :: "Tool \<Rightarrow> string \<Rightarrow> pyval list list" where
  "fallback_args t q =
     (let cities = dedup [] (findall q) in
      if name t = ''set_origin'' then
        (let cs = map (\<lambda>c. [PStr c]) (take 3 cities)
         in if cs = [] then [[PStr ''New York'']] else cs)
      else if name t = ''set_destination'' then
        (let cs = map (\<lambda>c. [PStr c]) (take 3 (drop 1 cities))
         in if cs = [] then [[PStr ''Boston'']] else cs)
      else if name t = ''select_transport'' then map (\<lambda>m. [PStr m]) TRANSPORT_MODES
      else [[]])"

text \<open>
  \<^verbatim>\<open>propose_args\<close> (the same in both planners but for the prompt): the state as the evaluation
  of the reply has left it, and the candidates: the list the reply has given when that is a
  non-empty list, else the fallback; at most three. An exit of the evaluation leaves the
  function, and the search.
\<close>

definition propose_args ::
  "world \<Rightarrow> nat \<Rightarrow> Tool \<Rightarrow> State \<Rightarrow> string \<Rightarrow> error + (State \<times> pyval list list \<times> nat)" where
  "propose_args w k t s q =
     (case args_reply w k t s q of
        Exited \<Rightarrow> Inl SystemExit
      | NoReply \<Rightarrow> Inr (s, take 3 (fallback_args t q), Suc k)
      | Evaluated s' r \<Rightarrow>
          (let candidates = (case r of None \<Rightarrow> [] | Some cs \<Rightarrow> cs);
               candidates = (if candidates = [] then fallback_args t q else candidates)
           in Inr (s', take 3 candidates, Suc k)))"

section \<open>Ranking and heuristic: planner\_viz.py\<close>

text \<open>\<^verbatim>\<open>heuristic\<close> (the same in both planners); \<^verbatim>\<open>min\<close> keeps the first least cost.\<close>

definition heuristic :: "State \<Rightarrow> real" where
  "heuristic s =
     (if truthy (booking_confirmed s) then 0
      else (case map cost (filter (\<lambda>t. precondition t s) TOOLS) of
              [] \<Rightarrow> 0
            | c # cs \<Rightarrow> fold (\<lambda>x m. if x < m then x else m) cs c))"

text \<open>\<^verbatim>\<open>max(0.0, min(1.0, p))\<close>.\<close>

definition clamp01 :: "pyfloat \<Rightarrow> pyfloat" where
  "clamp01 p = py_max (Fin 0) (py_min (Fin 1) p)"

text \<open>\<^verbatim>\<open>{t.name: t for t in candidates}\<close>: of two tools with one name the later one stays.\<close>

definition name2tool :: "Tool list \<Rightarrow> string \<Rightarrow> Tool option" where
  "name2tool candidates n = find (\<lambda>t. name t = n) (rev candidates)"

definition rank_items :: "Tool list \<Rightarrow> (string \<times> pyfloat) list \<Rightarrow> (Tool \<times> pyfloat) list" where
  "rank_items candidates items =
     List.map_filter
       (\<lambda>(n, p). case name2tool candidates n of None \<Rightarrow> None | Some t \<Rightarrow> Some (t, clamp01 p))
       items"

text \<open>The score of the fallback ranking; the fields are taken by their truth values.\<close>

definition heuristic_rank :: "State \<Rightarrow> Tool \<Rightarrow> real" where
  "heuristic_rank s t =
     (let score =
        (if name t = ''confirm_booking'' \<and> truthy (transport s) \<and> truthy (origin s)
              \<and> truthy (destination s) then 95 / 100
         else if name t = ''select_transport'' \<and> truthy (origin s) \<and> truthy (destination s)
              \<and> \<not> truthy (transport s) then 85 / 100
         else if name t = ''set_destination'' \<and> truthy (origin s) \<and> \<not> truthy (destination s)
              then 75 / 100
         else if name t = ''set_origin'' \<and> \<not> truthy (origin s) then 70 / 100
         else 50 / 100)
      in score - (1 / 100) * cost t)"

text \<open>
  \<^verbatim>\<open>sorted(..., key=lambda x: x[1], reverse=True)\<close>: descending and stable, so of two equal
  scores the one that stood first stays first.
\<close>

fun insert_desc :: "Tool \<times> real \<Rightarrow> (Tool \<times> real) list \<Rightarrow> (Tool \<times> real) list" where
  "insert_desc x [] = [x]"
| "insert_desc x (y # ys) = (if snd y \<le> snd x then x # y # ys else y # insert_desc x ys)"

definition sorted_desc :: "(Tool \<times> real) list \<Rightarrow> (Tool \<times> real) list" where
  "sorted_desc xs = foldr insert_desc xs []"

definition fallback_rank :: "State \<Rightarrow> Tool list \<Rightarrow> (Tool \<times> pyfloat) list" where
  "fallback_rank s candidates =
     map (\<lambda>(t, sc). (t, Fin sc)) (sorted_desc (map (\<lambda>t. (t, heuristic_rank s t)) candidates))"

text \<open>\<^verbatim>\<open>Planner.propose_tools\<close> with \<^verbatim>\<open>top_k = 3\<close>; no oracle call when no tool is applicable.\<close>

definition propose_tools :: "world \<Rightarrow> nat \<Rightarrow> State \<Rightarrow> string \<Rightarrow> (Tool \<times> pyfloat) list \<times> nat" where
  "propose_tools w k s q =
     (let candidates = filter (\<lambda>t. precondition t s) TOOLS in
      if candidates = [] then ([], k)
      else
        (let ranked = (case rank_reply w k s q of
                         None \<Rightarrow> []
                       | Some items \<Rightarrow> rank_items candidates items);
             ranked = (if ranked = [] then fallback_rank s candidates else ranked)
         in (take 3 ranked, Suc k)))"

section \<open>The search: planner\_viz.py\<close>

record Node =
  node_f :: pyfloat
  node_g :: real
  node_state :: State
  node_plan :: "(Tool \<times> pyval list) list"

text \<open>
  \<^verbatim>\<open>heapq\<close> compares nodes by \<^verbatim>\<open>f\<close> alone. It is modelled by its contract: OPEN is the list of
  the nodes it holds, a pop takes out a node that no other node undercuts (the earliest such
  one). The search never holds more than one node in OPEN, so the pop has no choice to make.
\<close>

definition heappush :: "Node list \<Rightarrow> Node \<Rightarrow> Node list" where
  "heappush open_set n = open_set @ [n]"

fun pop_min :: "Node \<Rightarrow> Node list \<Rightarrow> Node \<times> Node list" where
  "pop_min b [] = (b, [])"
| "pop_min b (n # ns) =
     (if py_lt (node_f n) (node_f b)
      then (let (m, rest) = pop_min n ns in (m, b # rest))
      else (let (m, rest) = pop_min b ns in (m, n # rest)))"

definition heappop :: "Node list \<Rightarrow> (Node \<times> Node list) option" where
  "heappop open_set = (case open_set of [] \<Rightarrow> None | n # ns \<Rightarrow> Some (pop_min n ns))"

text \<open>The literal \<^verbatim>\<open>1e-9\<close> of \<^verbatim>\<open>max(1e-9, prob * tool_prior)\<close>.\<close>

definition epsilon :: real where
  "epsilon = 1 / 1000000000"

text \<open>
  CLOSED is a Python set of state objects. An entry keeps the hash it had when it was added,
  while the object itself can change afterwards (the node's state is the object that the
  evaluation of a reply can assign to). So an entry is the pair of the state as it was added
  and the state as it is now, and a state is found in the set when an entry has its hash and
  is equal to it: when both halves are that state. (Two different states have different
  hashes here.)
\<close>

definition in_closed :: "State \<Rightarrow> (State \<times> State) list \<Rightarrow> bool" where
  "in_closed s closed_set = ((s, s) \<in> set closed_set)"

text \<open>
  The inner loop over \<^verbatim>\<open>zip(arg_candidates, probs)\<close> for one tool. The tool runs on a clone of
  the node's state; an exception of the call skips the candidate. \<open>best\<close> holds the four
  components that become the pushed node (the rest of the tuple is for the log).
\<close>

fun eval_candidates ::
  "Node \<Rightarrow> Tool \<Rightarrow> pyfloat \<Rightarrow> (pyval list \<times> pyfloat) list \<Rightarrow> Node option \<Rightarrow> error + Node option"
where
  "eval_candidates node t prior [] best = Inr best"
| "eval_candidates node t prior ((args, prob) # rest) best =
     (case tool_call t (node_state node) args of
        (_, Inl _) \<Rightarrow> eval_candidates node t prior rest best
      | (sim_state, Inr _) \<Rightarrow>
          (let combined_p = py_max (Fin epsilon) (py_mul prob prior);
               g_new = node_g node + cost t
           in case py_div (heuristic sim_state) combined_p of
                Inl e \<Rightarrow> Inl e
              | Inr h_new \<Rightarrow>
                  (let f_new = py_add g_new h_new;
                       cand = \<lparr>node_f = f_new, node_g = g_new, node_state = sim_state,
                               node_plan = node_plan node @ [(t, args)]\<rparr>;
                       best' = (case best of
                                  None \<Rightarrow> Some cand
                                | Some b \<Rightarrow> if py_lt f_new (node_f b) then Some cand else best)
                   in eval_candidates node t prior rest best')))"

text \<open>
  The outer loop over the ranked tools. \<^verbatim>\<open>propose_args\<close> works on \<^verbatim>\<open>node.state\<close> itself, so
  the node goes through the loop with its state as the replies have left it; the loop returns
  it with the best successor.
\<close>

fun eval_tools ::
  "world \<Rightarrow> nat \<Rightarrow> string \<Rightarrow> Node \<Rightarrow> (Tool \<times> pyfloat) list \<Rightarrow> Node option
     \<Rightarrow> error + (Node option \<times> Node \<times> nat)"
where
  "eval_tools w k q node [] best = Inr (best, node, k)"
| "eval_tools w k q node ((t, prior) # rest) best =
     (if \<not> precondition t (node_state node) then eval_tools w k q node rest best
      else
        (case propose_args w k t (node_state node) q of
           Inl e \<Rightarrow> Inl e
         | Inr (s', arg_candidates, k1) \<Rightarrow>
             (let node' = node\<lparr>node_state := s'\<rparr>;
                  (probs, k2) = predict_all w k1 s' t arg_candidates
              in case eval_candidates node' t prior (zip arg_candidates probs) best of
                   Inl e \<Rightarrow> Inl e
                 | Inr best' \<Rightarrow> eval_tools w k2 q node' rest best')))"

text \<open>
  One turn of \<^verbatim>\<open>while open_set\<close>, on the loop's variables: OPEN, CLOSED and the world's
  counter. \<^verbatim>\<open>node.state in closed\<close> hashes the state first. The logger only records; it is
  left out.
\<close>

datatype step_result =
  Done "error + (Tool \<times> pyval list) list"
| Continue "Node list \<times> (State \<times> State) list \<times> nat"

definition astar_step ::
  "world \<Rightarrow> string \<Rightarrow> Node list \<times> (State \<times> State) list \<times> nat \<Rightarrow> step_result" where
  "astar_step w q st =
     (case st of (open_set, closed_set, k) \<Rightarrow>
        (case heappop open_set of
           None \<Rightarrow> Done (Inl NoPlanFound)
         | Some (node, open_set') \<Rightarrow>
             (let s = node_state node in
              if \<not> hashable_state s then Done (Inl TypeError)
              else if in_closed s closed_set then Continue (open_set', closed_set, k)
              else if truthy (is_goal s) then Done (Inr (node_plan node))
              else
                (let (tool_candidates, k1) = propose_tools w k s q in
                 if tool_candidates = [] then Continue (open_set', (s, s) # closed_set, k1)
                 else
                   (case eval_tools w k1 q node tool_candidates None of
                      Inl e \<Rightarrow> Done (Inl e)
                    | Inr (None, node', k2) \<Rightarrow>
                        Continue (open_set', (s, node_state node') # closed_set, k2)
                    | Inr (Some b, node', k2) \<Rightarrow>
                        Continue (heappush open_set' b, (s, node_state node') # closed_set,
                                  k2))))))"

text \<open>
  The loop can go on for ever (a reply can keep making states no one has seen), so it runs on
  fuel: the result after at most \<open>n\<close> turns, \<open>None\<close> when the loop has not ended by then.
\<close>

fun astar_loop ::
  "nat \<Rightarrow> world \<Rightarrow> string \<Rightarrow> Node list \<times> (State \<times> State) list \<times> nat
     \<Rightarrow> (error + (Tool \<times> pyval list) list) option"
where
  "astar_loop 0 w q st = None"
| "astar_loop (Suc n) w q st =
     (case astar_step w q st of
        Done r \<Rightarrow> Some r
      | Continue st' \<Rightarrow> astar_loop n w q st')"

definition root_node :: "State \<Rightarrow> Node" where
  "root_node initial_state =
     \<lparr>node_f = Fin (heuristic initial_state), node_g = 0, node_state = initial_state,
      node_plan = []\<rparr>"

text \<open>\<^verbatim>\<open>Planner.astar\<close>: the root node is pushed onto the empty OPEN, CLOSED is empty.\<close>

definition astar ::
  "nat \<Rightarrow> world \<Rightarrow> nat \<Rightarrow> State \<Rightarrow> string \<Rightarrow> (error + (Tool \<times> pyval list) list) option" where
  "astar n w k initial_state q = astar_loop n w q (heappush [] (root_node initial_state), [], k)"

text \<open>
  Replaying a plan, as \<^verbatim>\<open>main\<close> does after the search: each tool is called on the state the
  calls before it have made, and the first exception ends the replay.
\<close>

fun replay :: "(Tool \<times> pyval list) list \<Rightarrow> State \<Rightarrow> error + State" where
  "replay [] s = Inr s"
| "replay ((t, args) # rest) s =
     (case tool_call t s args of
        (_, Inl e) \<Rightarrow> Inl e
      | (s', Inr _) \<Rightarrow> replay rest s')"

section \<open>The search: planner.py\<close>

text \<open>
  \<^verbatim>\<open>planner.propose_tools\<close>: as above without the fallback ranking, so the result is empty
  when the oracle fails or names no applicable tool.
\<close>

definition propose_tools_py ::
  "world \<Rightarrow> nat \<Rightarrow> State \<Rightarrow> string \<Rightarrow> (Tool \<times> pyfloat) list \<times> nat" where
  "propose_tools_py w k s q =
     (let candidates = filter (\<lambda>t. precondition t s) TOOLS in
      if candidates = [] then ([], k)
      else
        (let ranked = (case rank_reply w k s q of
                         None \<Rightarrow> []
                       | Some items \<Rightarrow> rank_items candidates items)
         in (take 3 ranked, Suc k)))"

text \<open>
  The loop over the argument candidates of the one chosen tool. The probability is asked for
  after the simulated call, the product is used as it is, and the division stands outside the
  \<^verbatim>\<open>try\<close>: its \<^verbatim>\<open>ZeroDivisionError\<close> leaves the search.
\<close>

fun eval_args_py ::
  "world \<Rightarrow> nat \<Rightarrow> Node \<Rightarrow> Tool \<Rightarrow> pyfloat \<Rightarrow> pyval list list \<Rightarrow> Node option
     \<Rightarrow> error + (Node option \<times> nat)"
where
  "eval_args_py w k node t tool_prior [] best = Inr (best, k)"
| "eval_args_py w k node t tool_prior (args # rest) best =
     (case tool_call t (node_state node) args of
        (_, Inl _) \<Rightarrow> eval_args_py w k node t tool_prior rest best
      | (sim_state, Inr success) \<Rightarrow>
          if \<not> success then eval_args_py w k node t tool_prior rest best
          else
            (let (prob, k1) = predict_success w k (node_state node) t args;
                 combined_p = py_mul prob tool_prior;
                 g_new = node_g node + cost t
             in case py_div (heuristic sim_state) combined_p of
                  Inl e \<Rightarrow> Inl e
                | Inr h_new \<Rightarrow>
                    (let f_new = py_add g_new h_new;
                         cand = \<lparr>node_f = f_new, node_g = g_new, node_state = sim_state,
                                 node_plan = node_plan node @ [(t, args)]\<rparr>;
                         best' = (case best of
                                    None \<Rightarrow> Some cand
                                  | Some b \<Rightarrow> if py_lt f_new (node_f b) then Some cand else best)
                     in eval_args_py w k1 node t tool_prior rest best')))"

text \<open>
  One turn of the loop. \<^verbatim>\<open>tool_candidates[0]\<close> is read without a test: on an empty ranking
  it raises \<^verbatim>\<open>IndexError\<close>. \<^verbatim>\<open>propose_args\<close> is called once, before the loop over its
  candidates, and works on \<^verbatim>\<open>node.state\<close> itself here too.
\<close>

definition astar_step_py ::
  "world \<Rightarrow> string \<Rightarrow> Node list \<times> (State \<times> State) list \<times> nat \<Rightarrow> step_result" where
  "astar_step_py w q st =
     (case st of (open_set, closed_set, k) \<Rightarrow>
        (case heappop open_set of
           None \<Rightarrow> Done (Inl NoPlanFound)
         | Some (node, open_set') \<Rightarrow>
             (let s = node_state node in
              if \<not> hashable_state s then Done (Inl TypeError)
              else if in_closed s closed_set then Continue (open_set', closed_set, k)
              else if truthy (is_goal s) then Done (Inr (node_plan node))
              else
                (let (tool_candidates, k1) = propose_tools_py w k s q in
                 case tool_candidates of
                   [] \<Rightarrow> Done (Inl IndexError)
                 | (t, tool_prior) # _ \<Rightarrow>
                     if \<not> precondition t s then Continue (open_set', (s, s) # closed_set, k1)
                     else
                       (case propose_args w k1 t s q of
                          Inl e \<Rightarrow> Done (Inl e)
                        | Inr (s', arg_candidates, k2) \<Rightarrow>
                            (case eval_args_py w k2 (node\<lparr>node_state := s'\<rparr>) t tool_prior
                                    arg_candidates None of
                               Inl e \<Rightarrow> Done (Inl e)
                             | Inr (None, k3) \<Rightarrow>
                                 Continue (open_set', (s, s') # closed_set, k3)
                             | Inr (Some b, k3) \<Rightarrow>
                                 Continue (heappush open_set' b, (s, s') # closed_set,
                                           k3)))))))"

fun astar_loop_py ::
  "nat \<Rightarrow> world \<Rightarrow> string \<Rightarrow> Node list \<times> (State \<times> State) list \<times> nat
     \<Rightarrow> (error + (Tool \<times> pyval list) list) option"
where
  "astar_loop_py 0 w q st = None"
| "astar_loop_py (Suc n) w q st =
     (case astar_step_py w q st of
        Done r \<Rightarrow> Some r
      | Continue st' \<Rightarrow> astar_loop_py n w q st')"

definition astar_py ::
  "nat \<Rightarrow> world \<Rightarrow> nat \<Rightarrow> State \<Rightarrow> string \<Rightarrow> (error + (Tool \<times> pyval list) list) option" where
  "astar_py n w k initial_state q =
     astar_loop_py n w q (heappush [] (root_node initial_state), [], k)"

section \<open>The expansion, as the design describes it\<close>

text \<open>
  The successor of a node by one tool and one argument tuple: none when the simulated call
  raises, else the node with \<open>g' = g + cost\<close>, \<open>f' = g' + heuristic(successor) / combined_p\<close>
  and the plan extended by the pair.
\<close>

definition successor :: "Node \<Rightarrow> Tool \<Rightarrow> pyfloat \<Rightarrow> pyval list \<Rightarrow> pyfloat \<Rightarrow> Node option" where
  "successor node t prior args prob =
     (case tool_call t (node_state node) args of
        (_, Inl _) \<Rightarrow> None
      | (sim_state, Inr _) \<Rightarrow>
          (case py_div (heuristic sim_state) (py_max (Fin epsilon) (py_mul prob prior)) of
             Inl _ \<Rightarrow> None
           | Inr h_new \<Rightarrow>
               Some \<lparr>node_f = py_add (node_g node + cost t) h_new, node_g = node_g node + cost t,
                     node_state = sim_state, node_plan = node_plan node @ [(t, args)]\<rparr>))"

text \<open>
  All successors of one expansion, in the order the search meets them: for every ranked tool
  whose precondition holds, for every argument tuple proposed for it. With them comes the
  node as the replies have left its state; an exit of a reply ends the expansion.
\<close>

fun all_successors ::
  "world \<Rightarrow> nat \<Rightarrow> string \<Rightarrow> Node \<Rightarrow> (Tool \<times> pyfloat) list
     \<Rightarrow> error + (Node list \<times> Node \<times> nat)"
where
  "all_successors w k q node [] = Inr ([], node, k)"
| "all_successors w k q node ((t, prior) # rest) =
     (if \<not> precondition t (node_state node) then all_successors w k q node rest
      else
        (case propose_args w k t (node_state node) q of
           Inl e \<Rightarrow> Inl e
         | Inr (s', arg_candidates, k1) \<Rightarrow>
             (let node' = node\<lparr>node_state := s'\<rparr>;
                  (probs, k2) = predict_all w k1 s' t arg_candidates;
                  here = List.map_filter (\<lambda>(args, prob). successor node' t prior args prob)
                           (zip arg_candidates probs)
              in case all_successors w k2 q node' rest of
                   Inl e \<Rightarrow> Inl e
                 | Inr (later, node'', k3) \<Rightarrow> Inr (here @ later, node'', k3))))"

text \<open>The best of a list of nodes: the first one that no other one undercuts in \<open>f\<close>.\<close>

fun best_of :: "Node option \<Rightarrow> Node list \<Rightarrow> Node option" where
  "best_of best [] = best"
| "best_of best (c # cs) =
     best_of (case best of
                None \<Rightarrow> Some c
              | Some b \<Rightarrow> if py_lt (node_f c) (node_f b) then Some c else best) cs"

text \<open>
  The loop states a search passes through: the state after \<open>n\<close> turns of the loop, if the
  loop is still running then.
\<close>

fun run_steps ::
  "(Node list \<times> (State \<times> State) list \<times> nat \<Rightarrow> step_result) \<Rightarrow> nat
     \<Rightarrow> Node list \<times> (State \<times> State) list \<times> nat
     \<Rightarrow> (Node list \<times> (State \<times> State) list \<times> nat) option"
where
  "run_steps step 0 st = Some st"
| "run_steps step (Suc n) st =
     (case step st of
        Done _ \<Rightarrow> None
      | Continue st' \<Rightarrow> run_steps step n st')"

text \<open>
  What C9 says of a node: its state is the replay of its plan from the initial state, and its
  \<open>g\<close> is the sum of the costs of the tools of its plan.
\<close>

definition node_ok :: "State \<Rightarrow> Node \<Rightarrow> bool" where
  "node_ok s0 n =
     (replay (node_plan n) s0 = Inr (node_state n)
      \<and> node_g n = sum_list (map (\<lambda>(t, args). cost t) (node_plan n)))"

section \<open>Replies that are plain data\<close>

text \<open>
  A reply to \<^verbatim>\<open>propose_args\<close> is plain when it is a literal list of tuples of strings, as the
  prompt asks for (or there is no reply, or it does not evaluate to a list): its evaluation
  leaves the state alone and gives that list.
\<close>

fun is_str :: "pyval \<Rightarrow> bool" where
  "is_str (PStr _) = True"
| "is_str _ = False"

fun plain_outcome :: "State \<Rightarrow> args_outcome \<Rightarrow> bool" where
  "plain_outcome s NoReply = True"
| "plain_outcome s Exited = False"
| "plain_outcome s (Evaluated s' None) = (s' = s)"
| "plain_outcome s (Evaluated s' (Some cs)) = (s' = s \<and> list_all (list_all is_str) cs)"

definition plain_replies :: "world \<Rightarrow> bool" where
  "plain_replies w = (\<forall>k t s q. plain_outcome s (args_reply w k t s q))"

text \<open>Every oracle call fails.\<close>

definition oracle_down :: "world \<Rightarrow> bool" where
  "oracle_down w =
     ((\<forall>k s q. rank_reply w k s q = None) \<and> (\<forall>k t s q. args_reply w k t s q = NoReply)
      \<and> (\<forall>k s t a. prob_reply w k s t a = CallFailed))"

text \<open>
  The number of fields a state has still to set: with plain replies every tool of the
  registry lowers it.
\<close>

definition unset :: "State \<Rightarrow> nat" where
  "unset s =
     (if origin s = PNone then 1 else 0) + (if destination s = PNone then 1 else 0)
     + (if transport s = PNone then 1 else 0) + (if truthy (booking_confirmed s) then 0 else 1)"

definition open_weight :: "Node list \<Rightarrow> nat" where
  "open_weight open_set = sum_list (map (\<lambda>n. Suc (unset (node_state n))) open_set)"

section \<open>Sample runs\<close>

text \<open>
  The goal text of the spec's scenario (and the same sentence with its first letter in lower
  case), and worlds:
  \<^item> \<open>w_fail c\<close>: every oracle call fails and every draw of \<^verbatim>\<open>random()\<close> is \<open>c\<close>;
  \<^item> \<open>w_book\<close>: every oracle call fails, the draw behind the first probability question is
    0.9 and every other draw 0.1;
  \<^item> \<open>w_zero\<close>: the ranking gives \<^verbatim>\<open>set_origin\<close> the prior 0;
  \<^item> \<open>w_five\<close>: every probability question is answered with \<^verbatim>\<open>5\<close>;
  \<^item> \<open>w_no_args\<close>: the reply to \<^verbatim>\<open>propose_args\<close> is \<^verbatim>\<open>[()]\<close>, one empty tuple;
  \<^item> \<open>w_setattr\<close>: the reply is \<^verbatim>\<open>[('A',), setattr(state, 'booking_confirmed', True)][:1]\<close>,
    which gives \<^verbatim>\<open>[('A',)]\<close> and sets the flag of the node's state;
  \<^item> \<open>w_setattr_py\<close>: the same reply, and the ranking names \<^verbatim>\<open>set_origin\<close> with \<^verbatim>\<open>p = 1\<close>
    (planner.py has no fallback ranking);
  \<^item> \<open>w_list\<close>: the reply is \<^verbatim>\<open>[[['New York']]]\<close>, one tuple that holds a list;
  \<^item> \<open>w_exit\<close>: the reply is \<^verbatim>\<open>exit()\<close>;
  \<^item> \<open>w_loop\<close>: the ranking names \<^verbatim>\<open>set_origin\<close> with \<^verbatim>\<open>p = 1\<close>, and the reply at tick \<open>k\<close> is
    \<^verbatim>\<open>[(setattr(state, 'destination', 'x' * k),)]\<close>, which gives \<^verbatim>\<open>[(None,)]\<close> and sets the
    destination of the node's state to a string of \<open>k\<close> letters.
\<close>

definition goal_text :: string where
  "goal_text = ''Book a train from New York to Boston''"

definition goal_text_lower :: string where
  "goal_text_lower = ''book a train from New York to Boston''"

definition w_fail :: "real \<Rightarrow> world" where
  "w_fail c =
     \<lparr>rank_reply = (\<lambda>_ _ _. None), args_reply = (\<lambda>_ _ _ _. NoReply),
      prob_reply = (\<lambda>_ _ _ _. CallFailed), rnd = (\<lambda>_. c)\<rparr>"

definition w_book :: world where
  "w_book =
     \<lparr>rank_reply = (\<lambda>_ _ _. None), args_reply = (\<lambda>_ _ _ _. NoReply),
      prob_reply = (\<lambda>_ _ _ _. CallFailed),
      rnd = (\<lambda>i. if i = 2 then 9 / 10 else 1 / 10)\<rparr>"

definition w_zero :: world where
  "w_zero =
     \<lparr>rank_reply = (\<lambda>_ _ _. Some [(''set_origin'', Fin 0)]), args_reply = (\<lambda>_ _ _ _. NoReply),
      prob_reply = (\<lambda>_ _ _ _. CallFailed), rnd = (\<lambda>_. 1 / 2)\<rparr>"

definition w_five :: world where
  "w_five =
     \<lparr>rank_reply = (\<lambda>_ _ _. None), args_reply = (\<lambda>_ _ _ _. NoReply),
      prob_reply = (\<lambda>_ _ _ _. Parsed (Fin 5)), rnd = (\<lambda>_. 1 / 2)\<rparr>"

definition w_no_args :: world where
  "w_no_args =
     \<lparr>rank_reply = (\<lambda>_ _ _. None), args_reply = (\<lambda>_ _ s _. Evaluated s (Some [[]])),
      prob_reply = (\<lambda>_ _ _ _. CallFailed), rnd = (\<lambda>_. 1 / 2)\<rparr>"

definition w_setattr :: world where
  "w_setattr =
     \<lparr>rank_reply = (\<lambda>_ _ _. None),
      args_reply = (\<lambda>_ _ s _. Evaluated (s\<lparr>booking_confirmed := PBool True\<rparr>)
                                 (Some [[PStr ''A'']])),
      prob_reply = (\<lambda>_ _ _ _. CallFailed), rnd = (\<lambda>_. 1 / 2)\<rparr>"

definition w_setattr_py :: world where
  "w_setattr_py =
     \<lparr>rank_reply = (\<lambda>_ _ _. Some [(''set_origin'', Fin 1)]),
      args_reply = (\<lambda>_ _ s _. Evaluated (s\<lparr>booking_confirmed := PBool True\<rparr>)
                                 (Some [[PStr ''A'']])),
      prob_reply = (\<lambda>_ _ _ _. CallFailed), rnd = (\<lambda>_. 1 / 2)\<rparr>"

definition w_list :: world where
  "w_list =
     \<lparr>rank_reply = (\<lambda>_ _ _. None),
      args_reply = (\<lambda>_ _ s _. Evaluated s (Some [[PObj 0 False True]])),
      prob_reply = (\<lambda>_ _ _ _. CallFailed), rnd = (\<lambda>_. 1 / 2)\<rparr>"

definition w_exit :: world where
  "w_exit =
     \<lparr>rank_reply = (\<lambda>_ _ _. None), args_reply = (\<lambda>_ _ _ _. Exited),
      prob_reply = (\<lambda>_ _ _ _. CallFailed), rnd = (\<lambda>_. 1 / 2)\<rparr>"

definition w_loop :: world where
  "w_loop =
     \<lparr>rank_reply = (\<lambda>_ _ _. Some [(''set_origin'', Fin 1)]),
      args_reply = (\<lambda>k _ s _. Evaluated (s\<lparr>destination := PStr (replicate k CHR ''x'')\<rparr>)
                                 (Some [[PNone]])),
      prob_reply = (\<lambda>_ _ _ _. CallFailed), rnd = (\<lambda>_. 1 / 2)\<rparr>"

text \<open>
  The successor of the root by \<^verbatim>\<open>set_origin\<close> in the world \<open>w_fail (1 / 2)\<close>, and the node that
  the first turn of the loop pushes in the world \<open>w_setattr\<close>.
\<close>

definition origin_node :: "string \<Rightarrow> Node" where
  "origin_node c =
     \<lparr>node_f = Fin (2897 / 897), node_g = 1,
      node_state = \<lparr>origin = PStr c, destination = PNone, transport = PNone,
                     booking_confirmed = PBool False\<rparr>,
      node_plan = [(set_origin, [PStr c])]\<rparr>"

definition setattr_node :: Node where
  "setattr_node =
     \<lparr>node_f = Fin 1, node_g = 1,
      node_state = \<lparr>origin = PStr ''A'', destination = PNone, transport = PNone,
                     booking_confirmed = PBool True\<rparr>,
      node_plan = [(set_origin, [PStr ''A''])]\<rparr>"

lemma findall_goal_text: "findall goal_text = [''Book'', ''New York'', ''Boston'']"
  by (simp add: goal_text_def is_upper_def is_lower_def is_space_def)

lemmas eval_defs = heappop_def heappush_def root_node_def is_goal_def Let_def
  TOOLS_def State_init_def rank_items_def List.map_filter_def name2tool_def clamp01_def
  py_max_def py_min_def propose_args_def fallback_args_def findall_goal_text tool_call_def
  predict_success_def arg0_def heuristic_def uniform_def epsilon_def TRANSPORT_MODES_def
  fallback_rank_def sorted_desc_def heuristic_rank_def hashable_state_def in_closed_def
section \<open>Properties\<close>

subsection \<open>Tool.\_\_call\_\_\<close>

lemma tool_fields [simp]:
  "name set_origin = ''set_origin''" "cost set_origin = 1"
  "precondition set_origin s = (origin s = PNone)"
  "effect set_origin s a = (case arg0 a of Inl e \<Rightarrow> (s, Some e) | Inr x \<Rightarrow> (s\<lparr>origin := x\<rparr>, None))"
  "name set_destination = ''set_destination''" "cost set_destination = 1"
  "precondition set_destination s = (origin s \<noteq> PNone \<and> destination s = PNone)"
  "effect set_destination s a = (case arg0 a of Inl e \<Rightarrow> (s, Some e) | Inr x \<Rightarrow> (s\<lparr>destination := x\<rparr>, None))"
  "name select_transport = ''select_transport''" "cost select_transport = 12 / 10"
  "precondition select_transport s = (destination s \<noteq> PNone \<and> transport s = PNone)"
  "effect select_transport s a = (case arg0 a of Inl e \<Rightarrow> (s, Some e) | Inr x \<Rightarrow> (s\<lparr>transport := x\<rparr>, None))"
  "name confirm_booking = ''confirm_booking''" "cost confirm_booking = 2"
  "precondition confirm_booking s = (transport s \<noteq> PNone \<and> \<not> truthy (booking_confirmed s))"
  "effect confirm_booking s a = (s\<lparr>booking_confirmed := PBool True\<rparr>, None)"
  by (simp_all add: set_origin_def set_destination_def select_transport_def confirm_booking_def)

lemma in_TOOLS:
  "t \<in> set TOOLS \<longleftrightarrow> t = set_origin \<or> t = set_destination \<or> t = select_transport \<or> t = confirm_booking"
  by (auto simp: TOOLS_def)

text \<open>
  C10, as the code has it. A call whose precondition is false raises the \<^verbatim>\<open>ValueError\<close> and
  leaves the state as it was. A call whose precondition is true runs the effect on the state:
  it returns \<^verbatim>\<open>True\<close> when the effect returns, and the effect's exception goes through when
  it raises.
\<close>

theorem tool_call_guard:
  "(\<not> precondition t s \<longrightarrow> tool_call t s args = (s, Inl (PreconditionFailed (name t))))
   \<and> (precondition t s \<longrightarrow>
        fst (tool_call t s args) = fst (effect t s args)
        \<and> (snd (effect t s args) = None \<longrightarrow> snd (tool_call t s args) = Inr True)
        \<and> (\<forall>e. snd (effect t s args) = Some e \<longrightarrow> snd (tool_call t s args) = Inl e))"
  by (auto simp: tool_call_def split: prod.splits option.splits)

theorem tool_call_guard_witness:
  "tool_call set_destination State_init [PStr ''Boston'']
     = (State_init, Inl (PreconditionFailed ''set_destination''))
   \<and> tool_call set_origin State_init [PStr ''Boston'']
     = (State_init\<lparr>origin := PStr ''Boston''\<rparr>, Inr True)
   \<and> tool_call set_origin State_init [] = (State_init, Inl IndexError)"
  using tool_call_guard [of set_destination State_init "[PStr ''Boston'']"]
        tool_call_guard [of set_origin State_init "[PStr ''Boston'']"]
        tool_call_guard [of set_origin State_init "[]"]
  by (simp add: State_init_def arg0_def prod_eq_iff)

text \<open>
  C10 as stated fails on an empty argument tuple: the precondition of \<^verbatim>\<open>set_origin\<close> holds on
  the initial state, and the call raises the \<^verbatim>\<open>IndexError\<close> of \<^verbatim>\<open>args[0]\<close> instead of
  returning \<^verbatim>\<open>True\<close>.
\<close>

theorem tool_call_effect_raises:
  "precondition set_origin State_init
   \<and> tool_call set_origin State_init [] = (State_init, Inl IndexError)"
  by (simp add: tool_call_def State_init_def arg0_def)

subsection \<open>The heuristic\<close>

lemma fold_min_Min:
  "fold (\<lambda>x m. if x < m then x else m) cs (c :: real) = Min (set (c # cs))"
proof (induction cs arbitrary: c)
  case Nil
  then show ?case by simp
next
  case (Cons a cs)
  have "fold (\<lambda>x m. if x < m then x else m) (a # cs) c
          = fold (\<lambda>x m. if x < m then x else m) cs (min a c)"
    by (simp add: min_def not_less)
  also have "\<dots> = Min (set (min a c # cs))" by (rule Cons.IH)
  also have "\<dots> = Min (set (c # a # cs))"
    by (cases "cs = []") (auto simp: min.commute min.left_commute Min_insert)
  finally show ?case .
qed

lemma heuristic_Min:
  "heuristic s =
     (if truthy (is_goal s) then 0
      else if filter (\<lambda>t. precondition t s) TOOLS = [] then 0
      else Min (cost ` {t \<in> set TOOLS. precondition t s}))"
proof -
  let ?ap = "filter (\<lambda>t. precondition t s) TOOLS"
  show ?thesis
  proof (cases "?ap")
    case Nil
    then show ?thesis by (simp add: heuristic_def is_goal_def)
  next
    case (Cons t ts)
    have "set ?ap = {t \<in> set TOOLS. precondition t s}" by auto
    with Cons have "insert (cost t) (cost ` set ts) = cost ` {t \<in> set TOOLS. precondition t s}"
      by (metis image_insert list.simps(15))
    with Cons show ?thesis by (simp add: heuristic_def is_goal_def fold_min_Min)
  qed
qed

text \<open>
  C7: the heuristic is 0 on a goal state, else the least cost among the tools of the registry
  whose precondition holds on the state, and 0 when no tool is applicable.
\<close>

theorem heuristic_min_cost:
  "heuristic s =
     (if truthy (is_goal s) then 0
      else if filter (\<lambda>t. precondition t s) TOOLS = [] then 0
      else Min (cost ` {t \<in> set TOOLS. precondition t s}))"
  by (rule heuristic_Min)

theorem heuristic_min_cost_witness:
  "heuristic State_init = 1
   \<and> heuristic \<lparr>origin = PNone, destination = PStr ''Boston'', transport = PStr ''bus'',
                 booking_confirmed = PBool False\<rparr> = 1
   \<and> heuristic \<lparr>origin = PStr ''A'', destination = PStr ''B'', transport = PStr ''bus'',
                 booking_confirmed = PBool True\<rparr> = 0"
  using heuristic_min_cost [of State_init]
        heuristic_min_cost [of "\<lparr>origin = PNone, destination = PStr ''Boston'',
                                 transport = PStr ''bus'', booking_confirmed = PBool False\<rparr>"]
        heuristic_min_cost [of "\<lparr>origin = PStr ''A'', destination = PStr ''B'',
                                 transport = PStr ''bus'', booking_confirmed = PBool True\<rparr>"]
  by (simp add: heuristic_def TOOLS_def State_init_def is_goal_def)

lemma heuristic_nonneg: "0 \<le> heuristic s"
proof (cases "truthy (is_goal s) \<or> filter (\<lambda>t. precondition t s) TOOLS = []")
  case True
  then show ?thesis by (auto simp: heuristic_Min)
next
  case False
  let ?A = "cost ` {t \<in> set TOOLS. precondition t s}"
  from False obtain t where "t \<in> set TOOLS" "precondition t s"
    by (metis (mono_tags, lifting) filter_False)
  then have ne: "?A \<noteq> {}" by auto
  have "finite ?A" by simp
  moreover have "\<forall>a \<in> ?A. 0 \<le> a" by (auto simp: in_TOOLS)
  ultimately have "0 \<le> Min ?A" using ne by (simp add: Min_ge_iff)
  with False show ?thesis by (simp add: heuristic_Min)
qed

lemma heuristic_le: "heuristic s \<le> 2"
proof (cases "truthy (is_goal s) \<or> filter (\<lambda>t. precondition t s) TOOLS = []")
  case True
  then show ?thesis by (auto simp: heuristic_Min)
next
  case False
  then obtain t where t: "t \<in> set TOOLS" "precondition t s"
    by (metis (mono_tags, lifting) filter_False)
  then have "cost t \<le> 2" by (auto simp: in_TOOLS)
  moreover have "Min (cost ` {t \<in> set TOOLS. precondition t s}) \<le> cost t"
    using t by (intro Min_le) auto
  ultimately show ?thesis using False by (simp add: heuristic_Min)
qed

text \<open>
  On a state that is no goal some tool of the registry is applicable, so the ranking of
  \<^verbatim>\<open>Planner.propose_tools\<close>, which falls back to the heuristic ranking, is not empty there.
\<close>

lemma nongoal_applicable:
  "\<not> truthy (is_goal s) \<Longrightarrow> filter (\<lambda>t. precondition t s) TOOLS \<noteq> []"
  by (simp add: TOOLS_def is_goal_def)

subsection \<open>The success probability\<close>

lemma uniform_range:
  "0 \<le> u \<Longrightarrow> u < 1 \<Longrightarrow>
     4 / 10 \<le> uniform (4 / 10) (9 / 10) u \<and> uniform (4 / 10) (9 / 10) u < 9 / 10"
  by (simp add: uniform_def)

text \<open>
  The second half of C6 holds: when the call fails or the reply is no float, the estimate is
  a draw of \<^verbatim>\<open>random.uniform(0.4, 0.9)\<close>, which lies in that range.
\<close>

lemma predict_success_fallback_range:
  assumes "\<forall>i. 0 \<le> rnd w i \<and> rnd w i < 1"
    and "prob_reply w (Suc k) s t args = CallFailed \<or> prob_reply w (Suc k) s t args = Unparsable"
  shows "\<exists>v. fst (predict_success w k s t args) = Fin v \<and> 4 / 10 \<le> v \<and> v \<le> 9 / 10"
proof -
  from assms(1)
  have "4 / 10 \<le> uniform (4 / 10) (9 / 10) (rnd w i)
        \<and> uniform (4 / 10) (9 / 10) (rnd w i) \<le> 9 / 10" for i
    using uniform_range[of "rnd w i"] by (simp add: less_imp_le)
  with assms(2) show ?thesis
    by (auto simp: predict_success_def Let_def)
qed

lemma predict_success_parsed:
  "prob_reply w (Suc k) s t args = Parsed v \<Longrightarrow> fst (predict_success w k s t args) = v"
  by (simp add: predict_success_def Let_def)

text \<open>
  C6, first half, at the reply \<^verbatim>\<open>5\<close>: \<^verbatim>\<open>predict_success\<close> returns \<^verbatim>\<open>float(out)\<close> as it is, here
  5, which is no probability. (The ranking's \<^verbatim>\<open>p\<close> is clamped by \<^verbatim>\<open>max(0.0, min(1.0, p))\<close>;
  this value is not.)
\<close>

theorem predict_success_unclamped:
  "fst (predict_success w_five 0 State_init set_origin [PStr ''New York'']) = Fin 5"
  by (simp add: predict_success_def w_five_def)

subsection \<open>planner.py on an empty ranking and on a prior of 0\<close>

text \<open>
  C3 in planner.py: with the oracle down the ranking is empty, and the first turn of the loop
  raises the \<^verbatim>\<open>IndexError\<close> of \<^verbatim>\<open>tool_candidates[0]\<close>, whatever the fuel.
\<close>

theorem astar_py_empty_ranking_raises:
  "astar_py (Suc n) (w_fail (1 / 2)) 0 State_init goal_text = Some (Inl IndexError)"
  by (simp add: astar_py_def astar_step_py_def propose_tools_py_def w_fail_def eval_defs)

text \<open>
  C2 in planner.py: the product \<^verbatim>\<open>prob * tool_prior\<close> is the divisor as it is; with the prior
  0 the search raises \<^verbatim>\<open>ZeroDivisionError\<close>.
\<close>

theorem astar_py_zero_prior_raises:
  "astar_py (Suc n) w_zero 0 State_init goal_text = Some (Inl ZeroDivisionError)"
  by (simp add: astar_py_def astar_step_py_def propose_tools_py_def w_zero_def eval_defs)
subsection \<open>The expansion of planner\_viz.py\<close>

lemma epsilon_pos: "0 < epsilon"
  by (simp add: epsilon_def)

lemma combined_p_floor:
  "py_max (Fin epsilon) (py_mul prob prior) = PInf
   \<or> (\<exists>c. py_max (Fin epsilon) (py_mul prob prior) = Fin c \<and> epsilon \<le> c)"
  by (cases "py_mul prob prior") (auto simp: py_max_def)

lemma floored_division:
  assumes "0 \<le> h"
  shows "\<exists>x. py_div h (py_max (Fin epsilon) (py_mul prob prior)) = Inr (Fin x)
             \<and> 0 \<le> x \<and> x \<le> h / epsilon"
proof -
  from combined_p_floor[of prob prior]
  consider "py_max (Fin epsilon) (py_mul prob prior) = PInf"
    | c where "py_max (Fin epsilon) (py_mul prob prior) = Fin c" "epsilon \<le> c" by auto
  then show ?thesis
  proof cases
    case 1
    with assms epsilon_pos show ?thesis by simp
  next
    case 2
    with epsilon_pos have c: "0 < c" by simp
    have "h / c \<le> h / epsilon"
      using 2(2) assms epsilon_pos by (intro divide_left_mono) auto
    with 2 c assms show ?thesis by simp
  qed
qed

lemma successor_cases:
  "successor node t prior args prob = None \<and> (\<exists>s e. tool_call t (node_state node) args = (s, Inl e))
   \<or> (\<exists>sim ok x. tool_call t (node_state node) args = (sim, Inr ok) \<and> 0 \<le> x
        \<and> x \<le> heuristic sim / epsilon
        \<and> py_div (heuristic sim) (py_max (Fin epsilon) (py_mul prob prior)) = Inr (Fin x)
        \<and> successor node t prior args prob =
            Some \<lparr>node_f = Fin (node_g node + cost t + x), node_g = node_g node + cost t,
                  node_state = sim, node_plan = node_plan node @ [(t, args)]\<rparr>)"
proof (cases "tool_call t (node_state node) args")
  case (Pair sim res)
  show ?thesis
  proof (cases res)
    case (Inl e)
    with Pair show ?thesis by (simp add: successor_def)
  next
    case (Inr ok)
    from floored_division[OF heuristic_nonneg, of sim prob prior]
    obtain x where "py_div (heuristic sim) (py_max (Fin epsilon) (py_mul prob prior)) = Inr (Fin x)"
      "0 \<le> x" "x \<le> heuristic sim / epsilon" by blast
    with Pair Inr show ?thesis by (simp add: successor_def)
  qed
qed

lemma eval_candidates_best_of:
  "eval_candidates node t prior cs best =
     Inr (best_of best (List.map_filter (\<lambda>(args, prob). successor node t prior args prob) cs))"
proof (induction cs arbitrary: best)
  case Nil
  then show ?case by (simp add: List.map_filter_simps)
next
  case (Cons c cs)
  obtain args prob where c: "c = (args, prob)" by (cases c)
  from successor_cases[of node t prior args prob] show ?case
  proof (elim disjE conjE exE)
    fix s e
    assume "successor node t prior args prob = None" "tool_call t (node_state node) args = (s, Inl e)"
    with c Cons.IH show ?thesis by (simp add: List.map_filter_simps)
  next
    fix sim ok x
    assume tc: "tool_call t (node_state node) args = (sim, Inr ok)"
      and dv: "py_div (heuristic sim) (py_max (Fin epsilon) (py_mul prob prior)) = Inr (Fin x)"
      and su: "successor node t prior args prob =
            Some \<lparr>node_f = Fin (node_g node + cost t + x), node_g = node_g node + cost t,
                  node_state = sim, node_plan = node_plan node @ [(t, args)]\<rparr>"
    show ?thesis
      by (cases best) (simp_all add: c tc dv su Cons.IH List.map_filter_simps Let_def)
  qed
qed

lemma best_of_append: "best_of best (xs @ ys) = best_of (best_of best xs) ys"
  by (induction xs arbitrary: best) simp_all

text \<open>The two loops of an expansion compute the best of all its successors.\<close>

lemma eval_tools_best_of:
  "eval_tools w k q node ranked best =
     (case all_successors w k q node ranked of
        Inl e \<Rightarrow> Inl e
      | Inr (succs, node', k') \<Rightarrow> Inr (best_of best succs, node', k'))"
proof (induction ranked arbitrary: k node best)
  case Nil
  then show ?case by simp
next
  case (Cons tp ranked)
  obtain t prior where tp: "tp = (t, prior)" by (cases tp)
  show ?case
  proof (cases "precondition t (node_state node)")
    case False
    with tp Cons.IH show ?thesis by simp
  next
    case True
    show ?thesis
    proof (cases "propose_args w k t (node_state node) q")
      case (Inl e)
      with True tp show ?thesis by simp
    next
      case (Inr r)
      obtain s' acs k1 where r: "r = (s', acs, k1)" by (cases r)
      obtain probs k2 where pr: "predict_all w k1 s' t acs = (probs, k2)"
        by (cases "predict_all w k1 s' t acs")
      show ?thesis
      proof (cases "all_successors w k2 q (node\<lparr>node_state := s'\<rparr>) ranked")
        case (Inl e)
        with True tp Inr r pr Cons.IH[of k2 "node\<lparr>node_state := s'\<rparr>"] show ?thesis
          by (simp add: eval_candidates_best_of)
      next
        case (Inr r2)
        obtain later node'' k3 where r2: "r2 = (later, node'', k3)" by (cases r2)
        from True tp \<open>propose_args w k t (node_state node) q = Inr r\<close> r pr Inr r2
          Cons.IH[of k2 "node\<lparr>node_state := s'\<rparr>"]
        show ?thesis
          by (simp add: eval_candidates_best_of best_of_append)
      qed
    qed
  qed
qed

lemma py_lt_irrefl: "\<not> py_lt a a"
  by (cases a) simp_all

lemma py_lt_trans: "py_lt a b \<Longrightarrow> py_lt b c \<Longrightarrow> py_lt a c"
  by (cases a; cases b; cases c) simp_all

lemma best_of_inv:
  assumes "best_of best cs = Some b"
    and "\<forall>b0. best = Some b0 \<longrightarrow> (\<forall>c \<in> S. \<not> py_lt (node_f c) (node_f b0))"
    and "best = None \<longrightarrow> S = {}"
  shows "(best = Some b \<or> b \<in> set cs)
         \<and> (\<forall>c \<in> S \<union> set cs. \<not> py_lt (node_f c) (node_f b))"
  using assms
proof (induction cs arbitrary: best S)
  case Nil
  then show ?case by simp
next
  case (Cons c cs)
  let ?best' = "case best of None \<Rightarrow> Some c
                | Some b0 \<Rightarrow> if py_lt (node_f c) (node_f b0) then Some c else best"
  from Cons.prems(1) have rec: "best_of ?best' cs = Some b" by simp
  have inv: "\<forall>b0. ?best' = Some b0 \<longrightarrow> (\<forall>x \<in> insert c S. \<not> py_lt (node_f x) (node_f b0))"
    using Cons.prems(2,3)
    by (auto simp: py_lt_irrefl split: option.splits if_splits dest: py_lt_trans)
  have ne: "?best' = None \<longrightarrow> insert c S = {}"
    by (auto split: option.splits if_splits)
  from Cons.IH[OF rec inv ne] have "(?best' = Some b \<or> b \<in> set cs)"
    and all: "\<forall>x \<in> insert c S \<union> set cs. \<not> py_lt (node_f x) (node_f b)" by auto
  then have "best = Some b \<or> b \<in> set (c # cs)"
    by (auto split: option.splits if_splits)
  with all show ?case by auto
qed

lemma best_of_None_Some:
  "best_of None cs = Some b \<Longrightarrow> b \<in> set cs \<and> (\<forall>c \<in> set cs. \<not> py_lt (node_f c) (node_f b))"
  using best_of_inv[of None cs b "{}"] by simp

lemma best_of_Some_ne: "best_of (Some b0) cs \<noteq> None"
  by (induction cs arbitrary: b0) simp_all

lemma best_of_None_iff: "best_of None cs = None \<longleftrightarrow> cs = []"
  by (cases cs) (simp_all add: best_of_Some_ne)

lemma pop_min_set: "pop_min b ns = (m, rest) \<Longrightarrow> set (b # ns) = insert m (set rest)"
proof (induction ns arbitrary: b m rest)
  case Nil
  then show ?case by simp
next
  case (Cons n ns)
  show ?case
  proof (cases "py_lt (node_f n) (node_f b)")
    case True
    obtain m' rest' where r: "pop_min n ns = (m', rest')" by (cases "pop_min n ns")
    with True Cons.prems have "m = m'" "rest = b # rest'" by simp_all
    with Cons.IH[OF r] show ?thesis by auto
  next
    case False
    obtain m' rest' where r: "pop_min b ns = (m', rest')" by (cases "pop_min b ns")
    with False Cons.prems have "m = m'" "rest = n # rest'" by simp_all
    with Cons.IH[OF r] show ?thesis by auto
  qed
qed

lemma heappop_set: "heappop xs = Some (m, rest) \<Longrightarrow> set xs = insert m (set rest)"
proof (cases xs)
  case Nil
  then show "heappop xs = Some (m, rest) \<Longrightarrow> ?thesis" by (simp add: heappop_def)
next
  case (Cons n ns)
  then show "heappop xs = Some (m, rest) \<Longrightarrow> ?thesis"
    using pop_min_set[of n ns m rest] by (simp add: heappop_def)
qed

lemma pop_min_weight:
  "pop_min b ns = (m, rest) \<Longrightarrow>
     open_weight (b # ns) = Suc (unset (node_state m)) + open_weight rest"
proof (induction ns arbitrary: b m rest)
  case Nil
  then show ?case by (simp add: open_weight_def)
next
  case (Cons n ns)
  show ?case
  proof (cases "py_lt (node_f n) (node_f b)")
    case True
    obtain m' rest' where r: "pop_min n ns = (m', rest')" by (cases "pop_min n ns")
    with True Cons.prems have "m = m'" "rest = b # rest'" by simp_all
    with Cons.IH[OF r] show ?thesis by (simp add: open_weight_def)
  next
    case False
    obtain m' rest' where r: "pop_min b ns = (m', rest')" by (cases "pop_min b ns")
    with False Cons.prems have "m = m'" "rest = n # rest'" by simp_all
    with Cons.IH[OF r] show ?thesis by (simp add: open_weight_def)
  qed
qed

lemma heappop_weight:
  "heappop xs = Some (m, rest) \<Longrightarrow> open_weight xs = Suc (unset (node_state m)) + open_weight rest"
  unfolding heappop_def by (auto split: list.splits dest: pop_min_weight)

lemma open_weight_push:
  "open_weight (heappush xs n) = open_weight xs + Suc (unset (node_state n))"
  unfolding open_weight_def heappush_def by simp

text \<open>The turn of the loop, in terms of the successors.\<close>

lemma astar_step_expand:
  assumes "heappop open_set = Some (node, rest)"
    and "hashable_state (node_state node)"
    and "\<not> in_closed (node_state node) closed_set" and "\<not> truthy (is_goal (node_state node))"
  shows "astar_step w q (open_set, closed_set, k) =
     (let (ranked, k1) = propose_tools w k (node_state node) q in
      case all_successors w k1 q node ranked of
        Inl e \<Rightarrow> Done (Inl e)
      | Inr (succs, node', k2) \<Rightarrow>
          Continue (case best_of None succs of None \<Rightarrow> rest | Some b \<Rightarrow> heappush rest b,
                    (node_state node, node_state node') # closed_set, k2))"
proof -
  obtain ranked k1 where pt: "propose_tools w k (node_state node) q = (ranked, k1)"
    by (cases "propose_tools w k (node_state node) q")
  show ?thesis
  proof (cases "ranked = []")
    case True
    with assms pt show ?thesis by (simp add: astar_step_def Let_def)
  next
    case False
    show ?thesis
    proof (cases "all_successors w k1 q node ranked")
      case (Inl e)
      with False assms pt show ?thesis by (simp add: astar_step_def Let_def eval_tools_best_of)
    next
      case (Inr r)
      obtain succs node' k2 where r: "r = (succs, node', k2)" by (cases r)
      with Inr False assms pt show ?thesis
        by (simp add: astar_step_def Let_def eval_tools_best_of split: option.splits)
    qed
  qed
qed

lemma astar_step_cases:
  "astar_step w q (open_set, closed_set, k) =
     (case heappop open_set of
        None \<Rightarrow> Done (Inl NoPlanFound)
      | Some (node, rest) \<Rightarrow>
          if \<not> hashable_state (node_state node) then Done (Inl TypeError)
          else if in_closed (node_state node) closed_set then Continue (rest, closed_set, k)
          else if truthy (is_goal (node_state node)) then Done (Inr (node_plan node))
          else
            (let (ranked, k1) = propose_tools w k (node_state node) q in
             case all_successors w k1 q node ranked of
               Inl e \<Rightarrow> Done (Inl e)
             | Inr (succs, node', k2) \<Rightarrow>
                 Continue (case best_of None succs of None \<Rightarrow> rest | Some b \<Rightarrow> heappush rest b,
                           (node_state node, node_state node') # closed_set, k2)))"
proof (cases "heappop open_set")
  case None
  then show ?thesis by (simp add: astar_step_def)
next
  case (Some p)
  obtain node rest where p: "p = (node, rest)" by (cases p)
  show ?thesis
  proof (cases "\<not> hashable_state (node_state node) \<or> in_closed (node_state node) closed_set
                \<or> truthy (is_goal (node_state node))")
    case True
    with Some p show ?thesis by (auto simp: astar_step_def Let_def)
  next
    case False
    with Some p astar_step_expand[of open_set node rest closed_set w q k] show ?thesis by simp
  qed
qed

subsection \<open>One successor per expansion\<close>

lemma propose_tools_length: "length (fst (propose_tools w k s q)) \<le> 3"
  by (simp add: propose_tools_def Let_def)

text \<open>
  C5, as the code has it. In an expansion of \<^verbatim>\<open>Planner.astar\<close> that runs to its end the
  ranking has at most three tools; the two loops compute the best of all successors (of every
  ranked tool whose precondition holds, and every argument tuple proposed for it, whose
  simulated call does not raise). When there is no successor nothing is pushed; otherwise
  exactly one node is pushed, a successor that no other successor of this expansion undercuts
  in \<open>f\<close>.
\<close>

theorem expansion_pushes_best_successor:
  assumes "heappop open_set = Some (node, rest)"
    and "hashable_state (node_state node)"
    and "\<not> in_closed (node_state node) closed_set" and "\<not> truthy (is_goal (node_state node))"
    and "propose_tools w k (node_state node) q = (ranked, k1)"
    and "all_successors w k1 q node ranked = Inr (succs, node', k2)"
  shows "length ranked \<le> 3
    \<and> eval_tools w k1 q node ranked None = Inr (best_of None succs, node', k2)
    \<and> (succs = [] \<longrightarrow>
         astar_step w q (open_set, closed_set, k)
           = Continue (rest, (node_state node, node_state node') # closed_set, k2))
    \<and> (succs \<noteq> [] \<longrightarrow>
         (\<exists>b. best_of None succs = Some b \<and> b \<in> set succs
              \<and> (\<forall>c \<in> set succs. \<not> py_lt (node_f c) (node_f b))
              \<and> astar_step w q (open_set, closed_set, k)
                   = Continue (heappush rest b, (node_state node, node_state node') # closed_set,
                               k2)))"
proof -
  from assms(5) propose_tools_length[of w k "node_state node" q]
  have len: "length ranked \<le> 3" by simp
  have ev: "eval_tools w k1 q node ranked None = Inr (best_of None succs, node', k2)"
    using assms(6) by (simp add: eval_tools_best_of)
  have step: "astar_step w q (open_set, closed_set, k) =
     Continue (case best_of None succs of None \<Rightarrow> rest | Some b \<Rightarrow> heappush rest b,
               (node_state node, node_state node') # closed_set, k2)"
    using assms by (simp add: astar_step_expand)
  have empty: "succs = [] \<longrightarrow>
         astar_step w q (open_set, closed_set, k)
           = Continue (rest, (node_state node, node_state node') # closed_set, k2)"
    using step by simp
  have nonempty: "succs \<noteq> [] \<longrightarrow>
         (\<exists>b. best_of None succs = Some b \<and> b \<in> set succs
              \<and> (\<forall>c \<in> set succs. \<not> py_lt (node_f c) (node_f b))
              \<and> astar_step w q (open_set, closed_set, k)
                   = Continue (heappush rest b, (node_state node, node_state node') # closed_set,
                               k2))"
  proof
    assume "succs \<noteq> []"
    then obtain b where b: "best_of None succs = Some b"
      using best_of_None_iff[of succs] by (cases "best_of None succs") auto
    from best_of_None_Some[OF b] b step show "\<exists>b. best_of None succs = Some b \<and> b \<in> set succs
              \<and> (\<forall>c \<in> set succs. \<not> py_lt (node_f c) (node_f b))
              \<and> astar_step w q (open_set, closed_set, k)
                   = Continue (heappush rest b, (node_state node, node_state node') # closed_set,
                               k2)"
      by simp
  qed
  from len ev empty nonempty show ?thesis by blast
qed

lemma heappop_root: "heappop (heappush [] (root_node s0)) = Some (root_node s0, [])"
  by (simp add: heappop_def heappush_def)

lemma propose_tools_fail_init:
  "propose_tools (w_fail (1 / 2)) 0 (node_state (root_node State_init)) goal_text
     = ([(set_origin, Fin (69 / 100))], 1)"
  by (simp add: propose_tools_def w_fail_def eval_defs)

lemma all_successors_fail_init:
  "all_successors (w_fail (1 / 2)) 1 goal_text (root_node State_init)
       [(set_origin, Fin (69 / 100))]
     = Inr ([origin_node ''Book'', origin_node ''New York'', origin_node ''Boston''],
            root_node State_init, 8)"
  by (simp add: successor_def w_fail_def origin_node_def eval_defs)

theorem expansion_pushes_best_successor_witness:
  "all_successors (w_fail (1 / 2)) 1 goal_text (root_node State_init)
       [(set_origin, Fin (69 / 100))]
     = Inr ([origin_node ''Book'', origin_node ''New York'', origin_node ''Boston''],
            root_node State_init, 8)
   \<and> astar_step (w_fail (1 / 2)) goal_text (heappush [] (root_node State_init), [], 0)
     = Continue ([origin_node ''Book''], [(State_init, State_init)], 8)"
proof -
  let ?succs = "[origin_node ''Book'', origin_node ''New York'', origin_node ''Boston'']"
  have pre: "hashable_state (node_state (root_node State_init))"
    "\<not> in_closed (node_state (root_node State_init)) []"
    "\<not> truthy (is_goal (node_state (root_node State_init)))"
    by (simp_all add: root_node_def State_init_def is_goal_def hashable_state_def in_closed_def)
  have "?succs \<noteq> [] \<longrightarrow>
         (\<exists>b. best_of None ?succs = Some b \<and> b \<in> set ?succs
              \<and> (\<forall>c \<in> set ?succs. \<not> py_lt (node_f c) (node_f b))
              \<and> astar_step (w_fail (1 / 2)) goal_text (heappush [] (root_node State_init), [], 0)
                   = Continue (heappush [] b,
                       (node_state (root_node State_init), node_state (root_node State_init)) # [],
                       8))"
    using expansion_pushes_best_successor
          [OF heappop_root pre propose_tools_fail_init all_successors_fail_init]
    by blast
  moreover have "best_of None ?succs = Some (origin_node ''Book'')"
    by (simp add: origin_node_def)
  ultimately have "astar_step (w_fail (1 / 2)) goal_text (heappush [] (root_node State_init), [], 0)
                   = Continue ([origin_node ''Book''], [(State_init, State_init)], 8)"
    by (simp add: heappush_def root_node_def)
  with all_successors_fail_init show ?thesis by simp
qed

text \<open>
  C5 as stated fails when every candidate is discarded: the oracle proposes the empty tuple
  for \<^verbatim>\<open>set_origin\<close>, the simulated call raises, and the expansion of the root pushes no node.
\<close>

theorem expansion_may_push_nothing:
  "fst (propose_tools w_no_args 0 State_init goal_text) = [(set_origin, Fin (69 / 100))]
   \<and> astar_step w_no_args goal_text (heappush [] (root_node State_init), [], 0)
       = Continue ([], [(State_init, State_init)], 4)"
  by (simp add: astar_step_def propose_tools_def w_no_args_def eval_defs)
subsection \<open>planner\_viz.py on an empty ranking and on a prior of 0\<close>

text \<open>
  What C3 and C2 say holds in \<^verbatim>\<open>Planner.astar\<close>. The ranking holds applicable tools of the
  registry only, and on a state that is no goal it is never empty (the test
  \<^verbatim>\<open>if not tool_candidates: continue\<close> stands before the first use all the same). Every
  successor of an expansion has a finite \<open>f\<close>, between its \<open>g\<close> and \<open>g + 2 / epsilon\<close>,
  whatever the probability and the prior are. The loop raises no \<^verbatim>\<open>IndexError\<close> and no
  \<^verbatim>\<open>ZeroDivisionError\<close>: what can leave it is \<^verbatim>\<open>RuntimeError("No plan found")\<close>, the
  \<^verbatim>\<open>TypeError\<close> of an unhashable state, and what the evaluation of a reply lets out.
\<close>

lemma find_Some_mem: "find P xs = Some x \<Longrightarrow> x \<in> set xs \<and> P x"
  by (induction xs) (auto split: if_splits)

lemma name2tool_mem: "name2tool cs n = Some t \<Longrightarrow> t \<in> set cs \<and> name t = n"
  unfolding name2tool_def by (auto dest: find_Some_mem)

lemma rank_items_mem: "(t, p) \<in> set (rank_items cs items) \<Longrightarrow> t \<in> set cs"
  unfolding rank_items_def
  by (auto simp: List.map_filter_def split: option.splits dest: name2tool_mem)

lemma set_insert_desc: "set (insert_desc x ys) = insert x (set ys)"
  by (induction ys) auto

lemma set_sorted_desc: "set (sorted_desc xs) = set xs"
  unfolding sorted_desc_def by (induction xs) (auto simp: set_insert_desc)

lemma fallback_rank_mem: "(t, p) \<in> set (fallback_rank s cs) \<Longrightarrow> t \<in> set cs"
  unfolding fallback_rank_def by (auto simp: set_sorted_desc)

lemma propose_tools_mem:
  assumes "(t, p) \<in> set (fst (propose_tools w k s q))"
  shows "t \<in> set TOOLS \<and> precondition t s"
proof -
  let ?cs = "filter (\<lambda>t. precondition t s) TOOLS"
  from assms have "t \<in> set ?cs"
    by (auto simp: propose_tools_def Let_def split: if_splits option.splits
        dest!: in_set_takeD dest: rank_items_mem fallback_rank_mem)
  then show ?thesis by simp
qed

lemma fallback_rank_nonempty: "cs \<noteq> [] \<Longrightarrow> fallback_rank s cs \<noteq> []"
proof -
  assume "cs \<noteq> []"
  then have "set (sorted_desc (map (\<lambda>t. (t, heuristic_rank s t)) cs)) \<noteq> {}"
    by (simp add: set_sorted_desc)
  then show ?thesis by (simp add: fallback_rank_def)
qed

lemma ranking_nonempty:
  assumes "\<not> truthy (is_goal s)"
  shows "fst (propose_tools w k s q) \<noteq> []"
proof -
  let ?cs = "filter (\<lambda>t. precondition t s) TOOLS"
  from nongoal_applicable[OF assms] have ne: "?cs \<noteq> []" .
  then have "fallback_rank s ?cs \<noteq> []" by (rule fallback_rank_nonempty)
  with ne show ?thesis
    by (auto simp: propose_tools_def Let_def split: option.splits)
qed

lemma all_successors_mem:
  assumes "all_successors w k q node ranked = Inr (succs, node', k')" and "c \<in> set succs"
  shows "\<exists>t prior args prob s'. (t, prior) \<in> set ranked
           \<and> successor (node\<lparr>node_state := s'\<rparr>) t prior args prob = Some c"
  using assms
proof (induction ranked arbitrary: k node succs)
  case Nil
  then show ?case by simp
next
  case (Cons tp ranked)
  obtain t prior where tp: "tp = (t, prior)" by (cases tp)
  show ?case
  proof (cases "precondition t (node_state node)")
    case False
    with Cons.prems tp have "all_successors w k q node ranked = Inr (succs, node', k')" by simp
    from Cons.IH[OF this Cons.prems(2)] show ?thesis by (meson list.set_intros(2))
  next
    case True
    from Cons.prems(1) True tp obtain s' acs k1 where
      pa: "propose_args w k t (node_state node) q = Inr (s', acs, k1)"
      by (auto split: sum.splits)
    obtain probs k2 where pr: "predict_all w k1 s' t acs = (probs, k2)"
      by (cases "predict_all w k1 s' t acs")
    from Cons.prems(1) True tp pa pr obtain later where
      al: "all_successors w k2 q (node\<lparr>node_state := s'\<rparr>) ranked = Inr (later, node', k')"
      and succs: "succs = List.map_filter
                    (\<lambda>(args, prob). successor (node\<lparr>node_state := s'\<rparr>) t prior args prob)
                    (zip acs probs) @ later"
      by (auto simp: Let_def split: sum.splits)
    from Cons.prems(2) succs
    consider "c \<in> set (List.map_filter
                    (\<lambda>(args, prob). successor (node\<lparr>node_state := s'\<rparr>) t prior args prob)
                    (zip acs probs))"
      | "c \<in> set later" by auto
    then show ?thesis
    proof cases
      case 1
      then obtain args prob where
        "successor (node\<lparr>node_state := s'\<rparr>) t prior args prob = Some c"
        by (auto simp: List.map_filter_def)
      with tp have "(t, prior) \<in> set (tp # ranked)
          \<and> successor (node\<lparr>node_state := s'\<rparr>) t prior args prob = Some c" by simp
      then show ?thesis by blast
    next
      case 2
      from Cons.IH[OF al 2] obtain t2 prior2 args prob s2 where
        "(t2, prior2) \<in> set ranked"
        "successor (node\<lparr>node_state := s', node_state := s2\<rparr>) t2 prior2 args prob = Some c"
        by auto
      then have "(t2, prior2) \<in> set (tp # ranked)
          \<and> successor (node\<lparr>node_state := s2\<rparr>) t2 prior2 args prob = Some c" by simp
      then show ?thesis by blast
    qed
  qed
qed

lemma successors_finite:
  assumes "all_successors w k q node ranked = Inr (succs, node', k')" and "c \<in> set succs"
  shows "\<exists>x. node_f c = Fin x \<and> node_g c \<le> x \<and> x \<le> node_g c + 2 / epsilon"
proof -
  from all_successors_mem[OF assms] obtain t prior args prob s' where
    su: "successor (node\<lparr>node_state := s'\<rparr>) t prior args prob = Some c" by blast
  let ?n = "node\<lparr>node_state := s'\<rparr>"
  from successor_cases[of ?n t prior args prob] su
  obtain sim x where x: "0 \<le> x" "x \<le> heuristic sim / epsilon"
    and c: "c = \<lparr>node_f = Fin (node_g ?n + cost t + x), node_g = node_g ?n + cost t,
                  node_state = sim, node_plan = node_plan ?n @ [(t, args)]\<rparr>"
    by auto
  have "heuristic sim / epsilon \<le> 2 / epsilon"
    using heuristic_le[of sim] epsilon_pos by (simp add: divide_right_mono)
  with x c show ?thesis by simp
qed

lemma propose_args_error: "propose_args w k t s q = Inl e \<Longrightarrow> e = SystemExit"
  by (auto simp: propose_args_def Let_def split: args_outcome.splits)

lemma all_successors_error: "all_successors w k q node ranked = Inl e \<Longrightarrow> e = SystemExit"
proof (induction ranked arbitrary: k node)
  case Nil
  then show ?case by simp
next
  case (Cons tp ranked)
  obtain t prior where tp: "tp = (t, prior)" by (cases tp)
  from Cons.prems tp Cons.IH show ?case
    by (auto simp: Let_def split: if_splits sum.splits prod.splits dest: propose_args_error)
qed

lemma astar_step_error:
  "astar_step w q st = Done (Inl e) \<Longrightarrow> e = NoPlanFound \<or> e = TypeError \<or> e = SystemExit"
  by (cases st)
     (auto simp: astar_step_cases Let_def split: option.splits if_splits prod.splits sum.splits
           dest: all_successors_error)

subsection \<open>How the search ends\<close>

text \<open>
  With plain replies \<^verbatim>\<open>propose_args\<close> leaves the state alone and proposes tuples of strings;
  a tool of the registry called on such a tuple sets one more field, and to a hashable value.
\<close>

lemma fallback_args_str: "list_all (list_all is_str) (fallback_args t q)"
  by (simp add: fallback_args_def Let_def TRANSPORT_MODES_def list_all_iff)

lemma list_all_take: "list_all P xs \<Longrightarrow> list_all P (take n xs)"
  by (auto simp: list_all_iff dest: in_set_takeD)

lemma propose_args_plain:
  assumes "plain_replies w"
  shows "\<exists>cands. propose_args w k t s q = Inr (s, cands, Suc k)
           \<and> list_all (list_all is_str) cands"
proof (cases "args_reply w k t s q")
  case NoReply
  then show ?thesis
    by (simp add: propose_args_def list_all_take fallback_args_str)
next
  case (Evaluated s' r)
  from assms have po: "plain_outcome s (args_reply w k t s q)"
    by (simp add: plain_replies_def)
  show ?thesis
  proof (cases r)
    case None
    with Evaluated po show ?thesis
      by (simp add: propose_args_def list_all_take fallback_args_str)
  next
    case (Some cs)
    with Evaluated po show ?thesis
      by (simp add: propose_args_def Let_def list_all_take fallback_args_str)
  qed
next
  case Exited
  from assms have "plain_outcome s (args_reply w k t s q)"
    by (simp add: plain_replies_def)
  with Exited show ?thesis by simp
qed

lemma all_successors_plain:
  assumes "plain_replies w"
  shows "\<exists>succs k'. all_successors w k q node ranked = Inr (succs, node, k')
           \<and> (\<forall>c \<in> set succs. \<exists>t prior args prob. (t, prior) \<in> set ranked
                  \<and> list_all is_str args \<and> successor node t prior args prob = Some c)"
proof (induction ranked arbitrary: k)
  case Nil
  then show ?case by simp
next
  case (Cons tp ranked)
  obtain t prior where tp: "tp = (t, prior)" by (cases tp)
  show ?case
  proof (cases "precondition t (node_state node)")
    case False
    from Cons.IH[of k] obtain succs k' where
      al: "all_successors w k q node ranked = Inr (succs, node, k')"
      and mem: "\<forall>c \<in> set succs. \<exists>t prior args prob. (t, prior) \<in> set ranked
                  \<and> list_all is_str args \<and> successor node t prior args prob = Some c"
      by blast
    from mem have "\<forall>c \<in> set succs. \<exists>t prior args prob. (t, prior) \<in> set (tp # ranked)
                  \<and> list_all is_str args \<and> successor node t prior args prob = Some c"
      by (meson list.set_intros(2))
    with al False tp show ?thesis by simp
  next
    case True
    from propose_args_plain[OF assms, of k t "node_state node" q] obtain acs where
      pa: "propose_args w k t (node_state node) q = Inr (node_state node, acs, Suc k)"
      and str: "list_all (list_all is_str) acs" by blast
    obtain probs k2 where pr: "predict_all w (Suc k) (node_state node) t acs = (probs, k2)"
      by (cases "predict_all w (Suc k) (node_state node) t acs")
    from Cons.IH[of k2] obtain later k' where
      al: "all_successors w k2 q node ranked = Inr (later, node, k')"
      and mem: "\<forall>c \<in> set later. \<exists>t prior args prob. (t, prior) \<in> set ranked
                  \<and> list_all is_str args \<and> successor node t prior args prob = Some c"
      by blast
    let ?here = "List.map_filter (\<lambda>(args, prob). successor node t prior args prob)
                   (zip acs probs)"
    have al': "all_successors w k q node (tp # ranked) = Inr (?here @ later, node, k')"
      using True tp pa pr al by simp
    have "\<exists>t prior args prob. (t, prior) \<in> set (tp # ranked)
             \<and> list_all is_str args \<and> successor node t prior args prob = Some c"
      if c: "c \<in> set (?here @ later)" for c
    proof (cases "c \<in> set ?here")
      case True
      then obtain args prob where ap: "(args, prob) \<in> set (zip acs probs)"
        and su: "successor node t prior args prob = Some c"
        by (auto simp: List.map_filter_def)
      from ap have "args \<in> set acs" by (rule set_zip_leftD)
      with str have "list_all is_str args" by (simp add: list_all_iff)
      with su tp have "(t, prior) \<in> set (tp # ranked)
             \<and> list_all is_str args \<and> successor node t prior args prob = Some c" by simp
      then show ?thesis by blast
    next
      case False
      with c have "c \<in> set later" by simp
      with mem show ?thesis by (meson list.set_intros(2))
    qed
    with al' show ?thesis by blast
  qed
qed

lemma tool_call_lowers:
  assumes "t \<in> set TOOLS" and "list_all is_str a" and "tool_call t s a = (s', Inr b)"
  shows "unset s' < unset s \<and> (hashable_state s \<longrightarrow> hashable_state s')"
proof -
  have str: "is_str x \<Longrightarrow> x \<noteq> PNone \<and> hashable x" for x by (cases x) simp_all
  from assms(1) consider "t = set_origin" | "t = set_destination" | "t = select_transport"
    | "t = confirm_booking" by (auto simp: in_TOOLS)
  then show ?thesis
  proof cases
    case 1
    with assms(2,3) show ?thesis
      by (cases a)
         (auto simp: tool_call_def arg0_def unset_def hashable_state_def dest: str
               split: if_splits)
  next
    case 2
    with assms(2,3) show ?thesis
      by (cases a)
         (auto simp: tool_call_def arg0_def unset_def hashable_state_def dest: str
               split: if_splits)
  next
    case 3
    with assms(2,3) show ?thesis
      by (cases a)
         (auto simp: tool_call_def arg0_def unset_def hashable_state_def dest: str
               split: if_splits)
  next
    case 4
    with assms(3) show ?thesis
      by (auto simp: tool_call_def unset_def hashable_state_def split: if_splits)
  qed
qed

text \<open>
  So a turn of the loop that continues takes the popped node out of OPEN and puts in at most
  one successor of it, which has fewer fields to set: the weight of OPEN goes down.
\<close>

lemma plain_step_shape:
  assumes "plain_replies w"
    and "astar_step w q (open_set, closed_set, k) = Continue st'"
  shows "\<exists>node rest. heappop open_set = Some (node, rest)
           \<and> (fst st' = rest
                \<or> (\<exists>b t args prior prob. fst st' = heappush rest b \<and> t \<in> set TOOLS
                       \<and> list_all is_str args
                       \<and> successor node t prior args prob = Some b))"
proof (cases "heappop open_set")
  case None
  with assms(2) show ?thesis by (simp add: astar_step_cases)
next
  case (Some p)
  obtain node rest where p: "p = (node, rest)" by (cases p)
  with Some have hp: "heappop open_set = Some (node, rest)" by simp
  let ?s = "node_state node"
  obtain ranked k1 where pt: "propose_tools w k ?s q = (ranked, k1)"
    by (cases "propose_tools w k ?s q")
  from all_successors_plain[OF assms(1), of k1 q node ranked] obtain succs k2 where
    al: "all_successors w k1 q node ranked = Inr (succs, node, k2)"
    and mem: "\<forall>c \<in> set succs. \<exists>t prior args prob. (t, prior) \<in> set ranked
                  \<and> list_all is_str args \<and> successor node t prior args prob = Some c"
    by blast
  show ?thesis
  proof (cases "\<not> hashable_state ?s \<or> in_closed ?s closed_set \<or> truthy (is_goal ?s)")
    case True
    with assms(2) hp have "fst st' = rest"
      by (auto simp: astar_step_cases split: if_splits)
    with hp show ?thesis by simp
  next
    case False
    with assms(2) hp pt al
    have st': "fst st' = (case best_of None succs of None \<Rightarrow> rest | Some b \<Rightarrow> heappush rest b)"
      by (auto simp: astar_step_cases)
    show ?thesis
    proof (cases "best_of None succs")
      case None
      with st' hp show ?thesis by simp
    next
      case (Some b)
      from best_of_None_Some[OF Some] have "b \<in> set succs" by simp
      with mem obtain t prior args prob where r: "(t, prior) \<in> set ranked"
        and str: "list_all is_str args" and su: "successor node t prior args prob = Some b"
        by blast
      from r pt have "t \<in> set TOOLS"
        using propose_tools_mem[of t prior w k ?s q] by simp
      with Some st' str su have "fst st' = heappush rest b \<and> t \<in> set TOOLS
                       \<and> list_all is_str args
                       \<and> successor node t prior args prob = Some b" by simp
      with hp show ?thesis by blast
    qed
  qed
qed

lemma successor_lowers:
  assumes "successor node t prior args prob = Some b" and "t \<in> set TOOLS"
    and "list_all is_str args"
  shows "unset (node_state b) < unset (node_state node)
         \<and> (hashable_state (node_state node) \<longrightarrow> hashable_state (node_state b))"
proof -
  from successor_cases[of node t prior args prob] assms(1)
  obtain sim ok where tc: "tool_call t (node_state node) args = (sim, Inr ok)"
    and b: "node_state b = sim" by auto
  from tool_call_lowers[OF assms(2,3) tc] b show ?thesis by simp
qed

lemma plain_step_decreases:
  assumes "plain_replies w"
    and "astar_step w q (open_set, closed_set, k) = Continue st'"
  shows "open_weight (fst st') < open_weight open_set"
proof -
  from plain_step_shape[OF assms] obtain node rest where
    hp: "heappop open_set = Some (node, rest)"
    and sh: "fst st' = rest
             \<or> (\<exists>b t args prior prob. fst st' = heappush rest b \<and> t \<in> set TOOLS
                    \<and> list_all is_str args \<and> successor node t prior args prob = Some b)"
    by blast
  from heappop_weight[OF hp]
  have w: "open_weight open_set = Suc (unset (node_state node)) + open_weight rest" .
  from sh show ?thesis
  proof
    assume "fst st' = rest"
    with w show ?thesis by simp
  next
    assume "\<exists>b t args prior prob. fst st' = heappush rest b \<and> t \<in> set TOOLS
                    \<and> list_all is_str args \<and> successor node t prior args prob = Some b"
    then obtain b t args prior prob where st': "fst st' = heappush rest b"
      and t: "t \<in> set TOOLS" and str: "list_all is_str args"
      and su: "successor node t prior args prob = Some b" by blast
    from successor_lowers[OF su t str] have "unset (node_state b) < unset (node_state node)"
      by simp
    with w st' show ?thesis by (simp add: open_weight_push)
  qed
qed

lemma plain_step_hashable:
  assumes "plain_replies w"
    and "astar_step w q (open_set, closed_set, k) = Continue st'"
    and "\<forall>n \<in> set open_set. hashable_state (node_state n)"
  shows "\<forall>n \<in> set (fst st'). hashable_state (node_state n)"
proof -
  from plain_step_shape[OF assms(1,2)] obtain node rest where
    hp: "heappop open_set = Some (node, rest)"
    and sh: "fst st' = rest
             \<or> (\<exists>b t args prior prob. fst st' = heappush rest b \<and> t \<in> set TOOLS
                    \<and> list_all is_str args \<and> successor node t prior args prob = Some b)"
    by blast
  from heappop_set[OF hp] have s: "set open_set = insert node (set rest)" .
  from sh show ?thesis
  proof
    assume "fst st' = rest"
    with s assms(3) show ?thesis by simp
  next
    assume "\<exists>b t args prior prob. fst st' = heappush rest b \<and> t \<in> set TOOLS
                    \<and> list_all is_str args \<and> successor node t prior args prob = Some b"
    then obtain b t args prior prob where st': "fst st' = heappush rest b"
      and t: "t \<in> set TOOLS" and str: "list_all is_str args"
      and su: "successor node t prior args prob = Some b" by blast
    from s assms(3) have "hashable_state (node_state node)" by simp
    with successor_lowers[OF su t str] have "hashable_state (node_state b)" by simp
    with s assms(3) st' show ?thesis by (simp add: heappush_def)
  qed
qed

lemma plain_step_error:
  assumes "plain_replies w"
    and "astar_step w q (open_set, closed_set, k) = Done (Inl e)"
    and "\<forall>n \<in> set open_set. hashable_state (node_state n)"
  shows "e = NoPlanFound"
proof (cases "heappop open_set")
  case None
  with assms(2) show ?thesis by (simp add: astar_step_cases)
next
  case (Some p)
  obtain node rest where p: "p = (node, rest)" by (cases p)
  with Some have hp: "heappop open_set = Some (node, rest)" by simp
  from heappop_set[OF hp] assms(3) have h: "hashable_state (node_state node)" by simp
  obtain ranked k1 where pt: "propose_tools w k (node_state node) q = (ranked, k1)"
    by (cases "propose_tools w k (node_state node) q")
  from all_successors_plain[OF assms(1), of k1 q node ranked] obtain succs k2 where
    al: "all_successors w k1 q node ranked = Inr (succs, node, k2)" by blast
  from assms(2) hp h pt al have False
    by (auto simp: astar_step_cases split: if_splits)
  then show ?thesis ..
qed

lemma open_weight_0: "open_weight xs = 0 \<longleftrightarrow> xs = []"
  by (cases xs) (simp_all add: open_weight_def)

lemma plain_search_bounded:
  assumes "plain_replies w"
  shows "open_weight (fst st) \<le> N \<Longrightarrow> \<forall>n \<in> set (fst st). hashable_state (node_state n) \<Longrightarrow>
     \<exists>n st' r. n \<le> N \<and> run_steps (astar_step w q) n st = Some st'
        \<and> astar_step w q st' = Done r \<and> (r = Inl NoPlanFound \<or> (\<exists>pl. r = Inr pl))"
proof (induction N arbitrary: st)
  case 0
  obtain open_set closed_set k where st: "st = (open_set, closed_set, k)" by (cases st)
  with 0 have "open_set = []" by (simp add: open_weight_0)
  with st have "astar_step w q st = Done (Inl NoPlanFound)"
    by (simp add: astar_step_def heappop_def)
  then have "(0::nat) \<le> 0 \<and> run_steps (astar_step w q) 0 st = Some st
        \<and> astar_step w q st = Done (Inl NoPlanFound)
        \<and> (Inl NoPlanFound = (Inl NoPlanFound :: error + (Tool \<times> pyval list) list)
            \<or> (\<exists>pl. (Inl NoPlanFound :: error + (Tool \<times> pyval list) list) = Inr pl))" by simp
  then show ?case by blast
next
  case (Suc N)
  obtain open_set closed_set k where st: "st = (open_set, closed_set, k)" by (cases st)
  show ?case
  proof (cases "astar_step w q st")
    case (Done r)
    have "r = Inl NoPlanFound \<or> (\<exists>pl. r = Inr pl)"
    proof (cases r)
      case (Inl e)
      with Done st Suc.prems(2) plain_step_error[OF assms, of q open_set closed_set k e]
      show ?thesis by simp
    next
      case (Inr pl)
      then show ?thesis by simp
    qed
    with Done have "(0::nat) \<le> Suc N \<and> run_steps (astar_step w q) 0 st = Some st
        \<and> astar_step w q st = Done r \<and> (r = Inl NoPlanFound \<or> (\<exists>pl. r = Inr pl))" by simp
    then show ?thesis by blast
  next
    case (Continue st1)
    from Continue st plain_step_decreases[OF assms, of q open_set closed_set k st1] Suc.prems(1)
    have w1: "open_weight (fst st1) \<le> N" by simp
    from Continue st plain_step_hashable[OF assms, of q open_set closed_set k st1] Suc.prems(2)
    have h1: "\<forall>n \<in> set (fst st1). hashable_state (node_state n)" by simp
    from Suc.IH[OF w1 h1] obtain n st' r where n: "n \<le> N"
      and run: "run_steps (astar_step w q) n st1 = Some st'"
      and d: "astar_step w q st' = Done r"
      and r: "r = Inl NoPlanFound \<or> (\<exists>pl. r = Inr pl)" by blast
    from Continue run have "run_steps (astar_step w q) (Suc n) st = Some st'" by simp
    with n d r have "Suc n \<le> Suc N \<and> run_steps (astar_step w q) (Suc n) st = Some st'
        \<and> astar_step w q st' = Done r \<and> (r = Inl NoPlanFound \<or> (\<exists>pl. r = Inr pl))" by simp
    then show ?thesis by blast
  qed
qed

lemma astar_loop_run:
  "run_steps (astar_step w q) n st = Some st' \<Longrightarrow> astar_step w q st' = Done r \<Longrightarrow>
     astar_loop (Suc (n + m)) w q st = Some r"
proof (induction n arbitrary: st)
  case 0
  then show ?case by simp
next
  case (Suc n)
  from Suc.prems(1) obtain st1 where c: "astar_step w q st = Continue st1"
    and run: "run_steps (astar_step w q) n st1 = Some st'"
    by (cases "astar_step w q st") simp_all
  from Suc.IH[OF run Suc.prems(2)] c show ?case by simp
qed

lemma unset_le: "unset s \<le> 4"
  by (simp add: unset_def)

text \<open>
  C8, as the code has it. \<^verbatim>\<open>Planner.astar\<close> takes the initial state and the goal text and no
  budget, and there is no failure for a budget that has run out. When the replies to
  \<^verbatim>\<open>propose_args\<close> are plain data and the initial state is hashable, the loop needs none: it
  ends after at most five turns that continue, and it ends in one of two ways, with a plan or
  with \<^verbatim>\<open>RuntimeError("No plan found")\<close> on an empty OPEN (with fuel for one turn more than
  it takes, \<open>astar\<close> gives that result).
\<close>

theorem search_ends_on_plain_replies:
  assumes "plain_replies w" and "hashable_state initial_state"
  shows "\<exists>n st r. n \<le> 5
      \<and> run_steps (astar_step w q) n (heappush [] (root_node initial_state), [], k) = Some st
      \<and> astar_step w q st = Done r
      \<and> (\<forall>m. astar (Suc (n + m)) w k initial_state q = Some r)
      \<and> (r = Inl NoPlanFound \<or> (\<exists>pl. r = Inr pl))"
proof -
  let ?init = "(heappush [] (root_node initial_state), [] :: (State \<times> State) list, k)"
  have "open_weight (fst ?init) = Suc (unset initial_state)"
    by (simp add: open_weight_def heappush_def root_node_def)
  with unset_le[of initial_state] have w: "open_weight (fst ?init) \<le> 5" by simp
  from assms(2) have h: "\<forall>n \<in> set (fst ?init). hashable_state (node_state n)"
    by (simp add: heappush_def root_node_def)
  from plain_search_bounded[OF assms(1) w h, of q] obtain n st r where n: "n \<le> 5"
    and run: "run_steps (astar_step w q) n ?init = Some st"
    and d: "astar_step w q st = Done r"
    and r: "r = Inl NoPlanFound \<or> (\<exists>pl. r = Inr pl)" by blast
  from astar_loop_run[OF run d]
  have "\<forall>m. astar (Suc (n + m)) w k initial_state q = Some r"
    by (simp add: astar_def)
  with n run d r show ?thesis by blast
qed

lemma plain_replies_no_args: "plain_replies w_no_args"
  by (simp add: plain_replies_def w_no_args_def)

lemma astar_no_args:
  "astar (Suc (Suc n)) w_no_args 0 State_init goal_text = Some (Inl NoPlanFound)"
  by (simp add: astar_def astar_step_def propose_tools_def w_no_args_def eval_defs)

theorem search_ends_on_plain_replies_witness:
  "plain_replies w_no_args \<and> hashable_state State_init
   \<and> (\<exists>n st. n \<le> 5
        \<and> run_steps (astar_step w_no_args goal_text) n (heappush [] (root_node State_init), [], 0)
             = Some st
        \<and> astar_step w_no_args goal_text st = Done (Inl NoPlanFound)
        \<and> astar (Suc (Suc 5)) w_no_args 0 State_init goal_text = Some (Inl NoPlanFound))"
proof -
  have h: "hashable_state State_init" by (simp add: hashable_state_def State_init_def)
  from search_ends_on_plain_replies [OF plain_replies_no_args h, of goal_text 0]
  obtain n st r where n: "n \<le> 5"
    and run: "run_steps (astar_step w_no_args goal_text) n
                (heappush [] (root_node State_init), [], 0) = Some st"
    and d: "astar_step w_no_args goal_text st = Done r"
    and a: "\<forall>m. astar (Suc (n + m)) w_no_args 0 State_init goal_text = Some r" by blast
  from n have "Suc (n + (6 - n)) = Suc (Suc 5)" by simp
  with a have "astar (Suc (Suc 5)) w_no_args 0 State_init goal_text = Some r" by metis
  with astar_no_args[of 5] have "r = Inl NoPlanFound" by simp
  with n run d astar_no_args[of 5] plain_replies_no_args h show ?thesis by blast
qed

text \<open>
  A reply that runs code takes the bound away. In the world \<open>w_loop\<close> every expansion leaves
  \<^verbatim>\<open>set_origin\<close> applicable (its argument is \<^verbatim>\<open>None\<close>) and makes a state that CLOSED does not
  hold (a destination of a new length), so every turn pushes a node and the loop never ends.
  A tuple that holds a list makes a state that cannot be hashed, and the next
  \<^verbatim>\<open>node.state in closed\<close> raises \<^verbatim>\<open>TypeError\<close>; the reply \<^verbatim>\<open>exit()\<close> leaves the search at once.
\<close>

lemma w_loop_step:
  assumes "origin (node_state node) = PNone" and "transport (node_state node) = PNone"
    and "booking_confirmed (node_state node) = PBool False"
    and "destination (node_state node) = PNone
         \<or> (\<exists>j<k. destination (node_state node) = PStr (replicate j CHR ''x''))"
    and "\<forall>(a, c) \<in> set closed_set. a \<noteq> c"
  shows "\<exists>node' closed_set' k'.
           astar_step w_loop q ([node], closed_set, k) = Continue ([node'], closed_set', k')
           \<and> origin (node_state node') = PNone \<and> transport (node_state node') = PNone
           \<and> booking_confirmed (node_state node') = PBool False
           \<and> (\<exists>j<k'. destination (node_state node') = PStr (replicate j CHR ''x''))
           \<and> (\<forall>(a, c) \<in> set closed_set'. a \<noteq> c)"
proof -
  let ?s = "node_state node"
  let ?s' = "?s\<lparr>destination := PStr (replicate (Suc k) CHR ''x'')\<rparr>"
  have nc: "\<not> in_closed ?s closed_set"
    using assms(5) by (auto simp: in_closed_def)
  have hs: "hashable_state ?s"
    using assms(1-4) by (auto simp: hashable_state_def)
  have ng: "\<not> truthy (is_goal ?s)"
    using assms(3) by (simp add: is_goal_def)
  have pt: "propose_tools w_loop k ?s q = ([(set_origin, Fin 1)], Suc k)"
    using assms(1-4) by (auto simp: propose_tools_def w_loop_def eval_defs)
  have ne: "?s \<noteq> ?s'"
  proof
    assume "?s = ?s'"
    then have "destination ?s = destination ?s'" by simp
    then have d: "destination ?s = PStr (replicate (Suc k) CHR ''x'')" by simp
    with assms(4) obtain j where "j < k" "replicate j CHR ''x'' = replicate (Suc k) CHR ''x''"
      by auto
    then have "length (replicate j CHR ''x'') = length (replicate (Suc k) CHR ''x'')" "j < k"
      by simp_all
    then show False by simp
  qed
  have ev: "eval_tools w_loop (Suc k) q node [(set_origin, Fin 1)] None
      = Inr (Some \<lparr>node_f = Fin (node_g node + 1 + 1 / (65 / 100)), node_g = node_g node + 1,
                    node_state = ?s', node_plan = node_plan node @ [(set_origin, [PNone])]\<rparr>,
             node\<lparr>node_state := ?s'\<rparr>, Suc (Suc (Suc (Suc k))))"
    using assms(1-3) by (simp add: w_loop_def eval_defs)
  let ?b = "\<lparr>node_f = Fin (node_g node + 1 + 1 / (65 / 100)), node_g = node_g node + 1,
             node_state = ?s', node_plan = node_plan node @ [(set_origin, [PNone])]\<rparr>"
  have step: "astar_step w_loop q ([node], closed_set, k)
      = Continue ([?b], (?s, ?s') # closed_set, Suc (Suc (Suc (Suc k))))"
    by (simp add: astar_step_def Let_def heappop_def heappush_def nc hs ng pt ev
        del: eval_tools.simps)
  have cl: "\<forall>(a, c) \<in> set ((?s, ?s') # closed_set). a \<noteq> c"
    using assms(5) ne by auto
  have "Suc k < Suc (Suc (Suc (Suc k)))
        \<and> destination (node_state ?b) = PStr (replicate (Suc k) CHR ''x'')"
    by simp
  then have dst: "\<exists>j<Suc (Suc (Suc (Suc k))).
                   destination (node_state ?b) = PStr (replicate j CHR ''x'')"
    by blast
  have "origin (node_state ?b) = PNone \<and> transport (node_state ?b) = PNone
        \<and> booking_confirmed (node_state ?b) = PBool False"
    using assms(1-3) by simp
  with step cl dst show ?thesis by blast
qed

lemma w_loop_runs_on:
  assumes "origin (node_state node) = PNone" and "transport (node_state node) = PNone"
    and "booking_confirmed (node_state node) = PBool False"
    and "destination (node_state node) = PNone
         \<or> (\<exists>j<k. destination (node_state node) = PStr (replicate j CHR ''x''))"
    and "\<forall>(a, c) \<in> set closed_set. a \<noteq> c"
  shows "astar_loop n w_loop q ([node], closed_set, k) = None"
  using assms
proof (induction n arbitrary: node closed_set k)
  case 0
  then show ?case by simp
next
  case (Suc n)
  from w_loop_step[OF Suc.prems, of q] obtain node' closed_set' k' where
    step: "astar_step w_loop q ([node], closed_set, k) = Continue ([node'], closed_set', k')"
    and inv: "origin (node_state node') = PNone" "transport (node_state node') = PNone"
      "booking_confirmed (node_state node') = PBool False"
      "\<exists>j<k'. destination (node_state node') = PStr (replicate j CHR ''x'')"
      "\<forall>(a, c) \<in> set closed_set'. a \<noteq> c"
    by blast
  from inv(4) have "destination (node_state node') = PNone
         \<or> (\<exists>j<k'. destination (node_state node') = PStr (replicate j CHR ''x''))" by simp
  from Suc.IH[OF inv(1-3) this inv(5)] step show ?case by simp
qed

lemma w_loop_never_ends: "astar n w_loop 0 State_init goal_text = None"
  unfolding astar_def heappush_def
  by (simp add: w_loop_runs_on root_node_def State_init_def)

lemma astar_list_reply_raises:
  "astar (Suc (Suc n)) w_list 0 State_init goal_text = Some (Inl TypeError)"
  by (simp add: astar_def astar_step_def propose_tools_def w_list_def eval_defs)

lemma astar_exit_reply_leaves:
  "astar (Suc n) w_exit 0 State_init goal_text = Some (Inl SystemExit)"
  by (simp add: astar_def astar_step_def propose_tools_def w_exit_def eval_defs)

text \<open>
  C8 as stated fails: no count of turns ends the search. In the world \<open>w_loop\<close> the loop is
  still running after a thousand turns (and after any other number, by \<open>w_loop_never_ends\<close>);
  nothing is raised.
\<close>

theorem search_runs_past_any_count:
  "astar 1000 w_loop 0 State_init goal_text = None"
  by (rule w_loop_never_ends)

subsection \<open>Nodes, plans and replay\<close>

text \<open>
  With plain replies every node of OPEN has as state the replay of its plan from the initial
  state and as \<open>g\<close> the sum of the costs of its plan, and a returned plan replays to a goal.
\<close>

lemma replay_snoc:
  "replay (pl @ [(t, args)]) s0 =
     (case replay pl s0 of
        Inl e \<Rightarrow> Inl e
      | Inr s \<Rightarrow> (case tool_call t s args of (_, Inl e) \<Rightarrow> Inl e | (s', Inr _) \<Rightarrow> Inr s'))"
proof (induction pl arbitrary: s0)
  case Nil
  then show ?case by (simp split: prod.splits sum.splits)
next
  case (Cons p pl)
  obtain t' a' where p: "p = (t', a')" by (cases p)
  show ?case
    by (simp add: p Cons.IH split: prod.splits sum.splits)
qed

lemma successor_ok:
  assumes "successor node t prior args prob = Some c" and "node_ok s0 node"
  shows "node_ok s0 c"
proof -
  from successor_cases[of node t prior args prob] assms(1)
  obtain sim ok x where tc: "tool_call t (node_state node) args = (sim, Inr ok)"
    and c: "c = \<lparr>node_f = Fin (node_g node + cost t + x), node_g = node_g node + cost t,
                  node_state = sim, node_plan = node_plan node @ [(t, args)]\<rparr>"
    by auto
  from assms(2) tc c show ?thesis
    by (simp add: node_ok_def replay_snoc)
qed

lemma root_node_ok: "node_ok s0 (root_node s0)"
  by (simp add: node_ok_def root_node_def)

lemma plain_step_keeps_ok:
  assumes "plain_replies w"
    and "astar_step w q (open_set, closed_set, k) = Continue st'"
    and "\<forall>n \<in> set open_set. node_ok s0 n"
  shows "\<forall>n \<in> set (fst st'). node_ok s0 n"
proof -
  from plain_step_shape[OF assms(1,2)] obtain node rest where
    hp: "heappop open_set = Some (node, rest)"
    and sh: "fst st' = rest
             \<or> (\<exists>b t args prior prob. fst st' = heappush rest b \<and> t \<in> set TOOLS
                    \<and> list_all is_str args \<and> successor node t prior args prob = Some b)"
    by blast
  from heappop_set[OF hp] have s: "set open_set = insert node (set rest)" .
  from sh show ?thesis
  proof
    assume "fst st' = rest"
    with s assms(3) show ?thesis by simp
  next
    assume "\<exists>b t args prior prob. fst st' = heappush rest b \<and> t \<in> set TOOLS
                    \<and> list_all is_str args \<and> successor node t prior args prob = Some b"
    then obtain b t args prior prob where st': "fst st' = heappush rest b"
      and su: "successor node t prior args prob = Some b" by blast
    from s assms(3) have "node_ok s0 node" by simp
    from successor_ok[OF su this] s assms(3) st' show ?thesis by (simp add: heappush_def)
  qed
qed

lemma plain_run_keeps_ok:
  assumes "plain_replies w"
  shows "run_steps (astar_step w q) n st = Some st' \<Longrightarrow> \<forall>x \<in> set (fst st). node_ok s0 x
           \<Longrightarrow> \<forall>x \<in> set (fst st'). node_ok s0 x"
proof (induction n arbitrary: st)
  case 0
  then show ?case by simp
next
  case (Suc n)
  obtain open_set closed_set k where st: "st = (open_set, closed_set, k)" by (cases st)
  from Suc.prems(1) obtain st1 where c: "astar_step w q st = Continue st1"
    and run: "run_steps (astar_step w q) n st1 = Some st'"
    by (cases "astar_step w q st") simp_all
  from c st Suc.prems(2) plain_step_keeps_ok[OF assms, of q open_set closed_set k st1 s0]
  have "\<forall>x \<in> set (fst st1). node_ok s0 x" by simp
  from Suc.IH[OF run this] show ?case .
qed

lemma astar_step_done_plan:
  assumes "astar_step w q (open_set, closed_set, k) = Done (Inr pl)"
  shows "\<exists>node \<in> set open_set. pl = node_plan node \<and> truthy (is_goal (node_state node))"
proof (cases "heappop open_set")
  case None
  with assms show ?thesis by (simp add: astar_step_cases)
next
  case (Some p)
  obtain node rest where p: "p = (node, rest)" by (cases p)
  with Some have hp: "heappop open_set = Some (node, rest)" by simp
  from heappop_set[OF hp] have "node \<in> set open_set" by simp
  moreover from assms hp have "pl = node_plan node \<and> truthy (is_goal (node_state node))"
    by (auto simp: astar_step_cases Let_def split: if_splits prod.splits sum.splits)
  ultimately show ?thesis by blast
qed

lemma plain_loop_valid:
  assumes "plain_replies w"
  shows "astar_loop n w q st = Some (Inr pl) \<Longrightarrow> \<forall>x \<in> set (fst st). node_ok s0 x
           \<Longrightarrow> \<exists>s. replay pl s0 = Inr s \<and> truthy (is_goal s)"
proof (induction n arbitrary: st)
  case 0
  then show ?case by simp
next
  case (Suc n)
  obtain open_set closed_set k where st: "st = (open_set, closed_set, k)" by (cases st)
  show ?case
  proof (cases "astar_step w q st")
    case (Done r)
    with Suc.prems(1) have "astar_step w q st = Done (Inr pl)" by simp
    with st astar_step_done_plan[of w q open_set closed_set k pl]
    obtain node where "node \<in> set open_set" "pl = node_plan node"
      "truthy (is_goal (node_state node))" by auto
    with Suc.prems(2) st show ?thesis by (auto simp: node_ok_def)
  next
    case (Continue st1)
    with Suc.prems(1) have l: "astar_loop n w q st1 = Some (Inr pl)" by simp
    from Continue st Suc.prems(2) plain_step_keeps_ok[OF assms, of q open_set closed_set k st1 s0]
    have "\<forall>x \<in> set (fst st1). node_ok s0 x" by simp
    from Suc.IH[OF l this] show ?thesis .
  qed
qed

lemma plain_plan_replays_to_goal:
  assumes "plain_replies w" and "astar n w k initial_state q = Some (Inr pl)"
  shows "\<exists>s. replay pl initial_state = Inr s \<and> truthy (is_goal s)"
proof -
  have "\<forall>x \<in> set (fst (heappush [] (root_node initial_state),
                        [] :: (State \<times> State) list, k)). node_ok initial_state x"
    by (simp add: heappush_def root_node_ok)
  from plain_loop_valid[OF assms(1) assms(2)[unfolded astar_def] this] show ?thesis .
qed

lemma plain_open_nodes_ok:
  assumes "plain_replies w"
    and "run_steps (astar_step w q) n (heappush [] (root_node initial_state), [], k)
           = Some (open_set, closed_set, k')"
    and "x \<in> set open_set"
  shows "node_ok initial_state x"
proof -
  have "\<forall>x \<in> set (fst (heappush [] (root_node initial_state),
                        [] :: (State \<times> State) list, k)). node_ok initial_state x"
    by (simp add: heappush_def root_node_ok)
  from plain_run_keeps_ok[OF assms(1,2) this] assms(3) show ?thesis by simp
qed

text \<open>
  C1 at a reply that runs code. The reply
  \<^verbatim>\<open>[('A',), setattr(state, 'booking_confirmed', True)][:1]\<close> to the first question for
  arguments evaluates to \<^verbatim>\<open>[('A',)]\<close> and sets the flag of the root's own state. The clone
  made of that state is a goal once the origin is set, so the second turn returns the plan of
  one step. Replayed from the initial state, that plan sets the origin and ends in a state
  that is no goal.
\<close>

theorem eval_reply_plan_misses_goal:
  "astar (Suc (Suc n)) w_setattr 0 State_init goal_text
     = Some (Inr [(set_origin, [PStr ''A''])])
   \<and> replay [(set_origin, [PStr ''A''])] State_init
     = Inr \<lparr>origin = PStr ''A'', destination = PNone, transport = PNone,
            booking_confirmed = PBool False\<rparr>
   \<and> \<not> truthy (is_goal \<lparr>origin = PStr ''A'', destination = PNone, transport = PNone,
                         booking_confirmed = PBool False\<rparr>)"
  by (simp add: astar_def astar_step_def propose_tools_def w_setattr_def eval_defs)

text \<open>
  C9 at the same reply: the node that the first turn pushes has the flag set in its state,
  while the replay of its plan from the initial state has not.
\<close>

theorem pushed_node_differs_from_replay:
  "run_steps (astar_step w_setattr goal_text) (Suc 0) (heappush [] (root_node State_init), [], 0)
     = Some ([setattr_node], [(State_init, State_init\<lparr>booking_confirmed := PBool True\<rparr>)], 4)
   \<and> node_state setattr_node
     = \<lparr>origin = PStr ''A'', destination = PNone, transport = PNone,
        booking_confirmed = PBool True\<rparr>
   \<and> replay (node_plan setattr_node) State_init
     = Inr \<lparr>origin = PStr ''A'', destination = PNone, transport = PNone,
            booking_confirmed = PBool False\<rparr>
   \<and> \<not> node_ok State_init setattr_node"
  by (simp add: astar_step_def propose_tools_def w_setattr_def setattr_node_def node_ok_def
      eval_defs)

text \<open>planner.py evaluates the reply in the same way, and returns the same plan.\<close>

lemma astar_step_py_setattr:
  "astar_step_py w_setattr_py goal_text (heappush [] (root_node State_init), [], 0)
     = Continue ([setattr_node],
                 [(State_init, State_init\<lparr>booking_confirmed := PBool True\<rparr>)], 4)"
  by (simp add: astar_step_py_def propose_tools_py_def w_setattr_py_def setattr_node_def
      eval_defs)

lemma astar_py_setattr:
  "astar_py (Suc (Suc n)) w_setattr_py 0 State_init goal_text
     = Some (Inr [(set_origin, [PStr ''A''])])"
  by (simp add: astar_py_def astar_step_py_def propose_tools_py_def w_setattr_py_def eval_defs)

subsection \<open>With the oracle down\<close>

text \<open>
  C4 with every oracle call failing. \<^verbatim>\<open>CITY_RE\<close> takes the first word of the sentence, the
  verb \<^verbatim>\<open>Book\<close>, for a city: the candidates for \<^verbatim>\<open>set_origin\<close> are Book, New York and
  Boston, and those for \<^verbatim>\<open>set_destination\<close> (\<^verbatim>\<open>cities[1:4]\<close>) are New York and Boston. The
  returned plan sets the origin \<^verbatim>\<open>Book\<close> and the destination \<^verbatim>\<open>New York\<close>.
\<close>

theorem oracle_down_origin_Book:
  "oracle_down w_book
   \<and> astar (Suc (Suc (Suc (Suc (Suc n))))) w_book 0 State_init goal_text =
       Some (Inr [(set_origin, [PStr ''Book'']), (set_destination, [PStr ''New York'']),
                  (select_transport, [PStr ''train'']), (confirm_booking, [])])"
proof
  show "oracle_down w_book" by (simp add: oracle_down_def w_book_def)
  show "astar (Suc (Suc (Suc (Suc (Suc n))))) w_book 0 State_init goal_text =
       Some (Inr [(set_origin, [PStr ''Book'']), (set_destination, [PStr ''New York'']),
                  (select_transport, [PStr ''train'']), (confirm_booking, [])])"
    by (simp add: astar_def astar_step_def propose_tools_def w_book_def eval_defs)
qed

text \<open>
  With the verb in lower case the same world gives the plan that the spec names.
\<close>

lemma findall_goal_text_lower: "findall goal_text_lower = [''New York'', ''Boston'']"
  by (simp add: goal_text_lower_def is_upper_def is_lower_def is_space_def)

lemma oracle_down_lower_case_plan:
  "astar (Suc (Suc (Suc (Suc (Suc n))))) w_book 0 State_init goal_text_lower =
     Some (Inr [(set_origin, [PStr ''New York'']), (set_destination, [PStr ''Boston'']),
                (select_transport, [PStr ''train'']), (confirm_booking, [])])"
  by (simp add: astar_def astar_step_def propose_tools_def w_book_def findall_goal_text_lower
      eval_defs)

end
